theory Spec2Isabelle
  imports Main "HOL-Library.Sublist" "HOL-Library.Multiset"
begin

section \<open>Strings and characters\<close>

text \<open>
  The build script \<^verbatim>\<open>scripts/build-content.mjs\<close> works on JavaScript strings.  They are
  modelled as \<^typ>\<open>string\<close>, a list of \<^typ>\<open>char\<close>, each \<^typ>\<open>char\<close> standing for one
  code unit in the range 0..255 (ASCII and Latin-1 text).  In that range the regular
  expression class \<^verbatim>\<open>\s\<close> and \<^verbatim>\<open>String.prototype.trim\<close> know the characters 9..13, 32
  and 160; \<^verbatim>\<open>.\<close> excludes the line terminators 10 and 13; \<^verbatim>\<open>\d\<close> is 0..9.
\<close>

definition isSpace :: "char \<Rightarrow> bool" where
  "isSpace c = (let n = (of_char c :: nat) in (9 \<le> n \<and> n \<le> 13) \<or> n = 32 \<or> n = 160)"

definition isDigit :: "char \<Rightarrow> bool" where
  "isDigit c = (let n = (of_char c :: nat) in 48 \<le> n \<and> n \<le> 57)"

definition isLowerAlpha :: "char \<Rightarrow> bool" where
  "isLowerAlpha c = (let n = (of_char c :: nat) in 97 \<le> n \<and> n \<le> 122)"

definition isLineTerminator :: "char \<Rightarrow> bool" where
  "isLineTerminator c = (c = CHR 0x0A \<or> c = CHR 0x0D)"

text \<open>\<^verbatim>\<open>toLowerCase\<close>, one code unit at a time: A..Z, and the Latin-1 capitals.\<close>

definition toLowerChar :: "char \<Rightarrow> char" where
  "toLowerChar c = (let n = (of_char c :: nat) in
     if (65 \<le> n \<and> n \<le> 90) \<or> (192 \<le> n \<and> n \<le> 222 \<and> n \<noteq> 215)
     then char_of (n + 32) else c)"

definition toLowerCase :: "string \<Rightarrow> string" where
  "toLowerCase s = map toLowerChar s"

definition trim :: "string \<Rightarrow> string" where
  "trim s = rev (dropWhile isSpace (rev (dropWhile isSpace s)))"

definition startsWith :: "string \<Rightarrow> string \<Rightarrow> bool" where
  "startsWith s p = (take (length p) s = p)"

text \<open>\<^verbatim>\<open>Array.prototype.join\<close>.\<close>

fun joinWith :: "string \<Rightarrow> string list \<Rightarrow> string" where
  "joinWith sep [] = []"
| "joinWith sep [x] = x"
| "joinWith sep (x # y # ys) = x @ sep @ joinWith sep (y # ys)"

text \<open>\<^verbatim>\<open>split('\n')\<close>: the empty string gives one empty line.\<close>

fun splitLines :: "string \<Rightarrow> string list" where
  "splitLines [] = [[]]"
| "splitLines (c # cs) =
     (if c = CHR 0x0A then [] # splitLines cs
      else (case splitLines cs of l # ls \<Rightarrow> (c # l) # ls | [] \<Rightarrow> [[c]]))"

text \<open>\<^verbatim>\<open>replace(/\r\n/g, '\n')\<close>.\<close>

fun replaceCRLF :: "string \<Rightarrow> string" where
  "replaceCRLF [] = []"
| "replaceCRLF [c] = [c]"
| "replaceCRLF (c # d # cs) =
     (if c = CHR 0x0D \<and> d = CHR 0x0A then CHR 0x0A # replaceCRLF cs
      else c # replaceCRLF (d # cs))"

text \<open>\<^verbatim>\<open>replaceAll\<close> of a one-character pattern by a fixed string.\<close>

definition replaceAllChar :: "char \<Rightarrow> string \<Rightarrow> string \<Rightarrow> string" where
  "replaceAllChar c rep s = concat (map (\<lambda>x. if x = c then rep else [x]) s)"

text \<open>
  \<^verbatim>\<open>String(n)\<close> and the template \<^verbatim>\<open>${n}\<close> for a non-negative integer: its decimal
  digits.  \<^verbatim>\<open>Number(digits)\<close> reads them back.
\<close>

definition digitChar :: "nat \<Rightarrow> char" where
  "digitChar d = char_of (48 + d)"

fun showNat :: "nat \<Rightarrow> string" where
  "showNat n = (if n < 10 then [digitChar n] else showNat (n div 10) @ [digitChar (n mod 10)])"

declare showNat.simps [simp del]

definition digitVal :: "char \<Rightarrow> nat" where
  "digitVal c = (of_char c :: nat) - 48"

definition readNat :: "string \<Rightarrow> nat" where
  "readNat s = foldl (\<lambda>acc c. 10 * acc + digitVal c) 0 s"

section \<open>Escaping and slugs\<close>

definition escapeHtml :: "string \<Rightarrow> string" where
  \<open>escapeHtml v =
     replaceAllChar (CHR 0x27) ''&#39;''
       (replaceAllChar (CHR 0x22) ''&quot;''
         (replaceAllChar (CHR ''>'') ''&gt;''
           (replaceAllChar (CHR ''<'') ''&lt;''
             (replaceAllChar (CHR ''&'') ''&amp;'' v))))\<close>

definition escapeAttr :: "string \<Rightarrow> string" where
  "escapeAttr v = escapeHtml v"

definition xmlEscape :: "string \<Rightarrow> string" where
  \<open>xmlEscape v =
     replaceAllChar (CHR 0x27) ''&apos;''
       (replaceAllChar (CHR 0x22) ''&quot;''
         (replaceAllChar (CHR ''>'') ''&gt;''
           (replaceAllChar (CHR ''<'') ''&lt;''
             (replaceAllChar (CHR ''&'') ''&amp;'' v))))\<close>

text \<open>
  \<^verbatim>\<open>replace(/\s+/g, '-')\<close> and \<^verbatim>\<open>replace(/-+/g, '-')\<close>: every maximal run of characters
  of the class becomes one copy of the replacement.
\<close>

function collapseRuns :: "(char \<Rightarrow> bool) \<Rightarrow> string \<Rightarrow> string \<Rightarrow> string" where
  "collapseRuns P rep [] = []"
| "collapseRuns P rep (c # cs) =
     (if P c then rep @ collapseRuns P rep (dropWhile P cs)
      else c # collapseRuns P rep cs)"
  by pat_completeness auto
termination
  by (relation "measure (\<lambda>(P, rep, s). length s)")
     (auto simp: length_dropWhile_le le_imp_less_Suc)

definition slugify :: "string \<Rightarrow> string" where
  "slugify v =
     collapseRuns (\<lambda>c. c = CHR ''-'') ''-''
       (collapseRuns isSpace ''-''
         (trim
           (filter (\<lambda>c. isLowerAlpha c \<or> isDigit c \<or> isSpace c \<or> c = CHR ''-'')
             (toLowerCase v))))"

section \<open>The inline renderer\<close>

text \<open>
  Each pass of \<^verbatim>\<open>renderInline\<close> is a global \<^verbatim>\<open>replace\<close>: the text is scanned from the
  left, a match at the current position is replaced and the scan goes on after it,
  otherwise one character is copied.  None of the five patterns can match in two ways
  at one position (each repeated class excludes the delimiter that follows it), so a
  match is a function of the position.
\<close>

text \<open>Pattern \<^verbatim>\<open>`([^`]+)`\<close>: the captured code and the text after the match.\<close>

definition matchCode :: "string \<Rightarrow> (string \<times> string) option" where
  "matchCode s =
     (case s of
        [] \<Rightarrow> None
      | c # r \<Rightarrow>
          if c = CHR 0x60 then
            (let code = takeWhile (\<lambda>x. x \<noteq> CHR 0x60) r;
                 rest = dropWhile (\<lambda>x. x \<noteq> CHR 0x60) r
             in if code \<noteq> [] \<and> rest \<noteq> [] then Some (code, tl rest) else None)
          else None)"

text \<open>
  Pattern \<^verbatim>\<open>\[([^\]]+)\]\((https?:\/\/[^\s)]+)\)\<close>: the label, the target and the text
  after the match.
\<close>

definition matchLink :: "string \<Rightarrow> (string \<times> string \<times> string) option" where
  "matchLink s =
     (case s of
        [] \<Rightarrow> None
      | c # r \<Rightarrow>
          if c = CHR ''['' then
            (let label = takeWhile (\<lambda>x. x \<noteq> CHR '']'') r;
                 r1 = dropWhile (\<lambda>x. x \<noteq> CHR '']'') r
             in if label \<noteq> [] \<and> startsWith r1 '']('' then
                  (let r2 = drop 2 r1;
                       scheme = (if startsWith r2 ''https://'' then ''https://''
                                 else if startsWith r2 ''http://'' then ''http://'' else [])
                   in if scheme = [] then None
                      else
                        (let r3 = drop (length scheme) r2;
                             tgt = takeWhile (\<lambda>x. \<not> isSpace x \<and> x \<noteq> CHR '')'') r3;
                             r4 = dropWhile (\<lambda>x. \<not> isSpace x \<and> x \<noteq> CHR '')'') r3
                         in if tgt \<noteq> [] \<and> startsWith r4 '')''
                            then Some (label, scheme @ tgt, tl r4) else None))
                else None)
          else None)"

text \<open>
  Patterns \<^verbatim>\<open>\*\*([^*]+)\*\*\<close> and \<^verbatim>\<open>\*([^*]+)\*\<close>: the opening and closing delimiter
  \<open>d\<close>, the captured text and the text after the match.
\<close>

definition matchStars :: "string \<Rightarrow> string \<Rightarrow> (string \<times> string) option" where
  "matchStars d s =
     (if startsWith s d then
        (let r = drop (length d) s;
             inner = takeWhile (\<lambda>x. x \<noteq> CHR ''*'') r;
             r1 = dropWhile (\<lambda>x. x \<noteq> CHR ''*'') r
         in if inner \<noteq> [] \<and> startsWith r1 d then Some (inner, drop (length d) r1) else None)
      else None)"

text \<open>Pattern \<^verbatim>\<open>__CODE_(\d+)__\<close>: the digits and the text after the match.\<close>

definition matchToken :: "string \<Rightarrow> (string \<times> string) option" where
  "matchToken s =
     (if startsWith s ''__CODE_'' then
        (let r = drop 7 s;
             ds = takeWhile isDigit r;
             r1 = dropWhile isDigit r
         in if ds \<noteq> [] \<and> startsWith r1 ''__'' then Some (ds, drop 2 r1) else None)
      else None)"

lemma startsWith_length: "startsWith s p \<Longrightarrow> length p \<le> length s"
proof -
  assume "startsWith s p"
  then have "length (take (length p) s) = length p" by (simp add: startsWith_def)
  then show ?thesis by simp
qed

lemma matchCode_shorter: "matchCode s = Some (code, rest) \<Longrightarrow> length rest < length s"
proof -
  assume a: "matchCode s = Some (code, rest)"
  then obtain c r where s: "s = c # r" by (cases s) (auto simp: matchCode_def)
  from a s have "rest = tl (dropWhile (\<lambda>x. x \<noteq> CHR 0x60) r)"
    by (auto simp: matchCode_def Let_def split: if_splits)
  then have "length rest \<le> length r"
    using length_dropWhile_le [of "\<lambda>x. x \<noteq> CHR 0x60" r] by simp
  with s show ?thesis by simp
qed

lemma matchLink_shorter: "matchLink s = Some (label, href, rest) \<Longrightarrow> length rest < length s"
proof -
  assume a: "matchLink s = Some (label, href, rest)"
  then obtain c r where s: "s = c # r" by (cases s) (auto simp: matchLink_def)
  define r1 where "r1 = dropWhile (\<lambda>x. x \<noteq> CHR '']'') r"
  define r2 where "r2 = drop 2 r1"
  from a s obtain k where
    "rest = tl (dropWhile (\<lambda>x. \<not> isSpace x \<and> x \<noteq> CHR '')'') (drop k r2))"
    unfolding matchLink_def Let_def r1_def r2_def
    by (auto split: if_splits)
  then have "length rest \<le> length (drop k r2)"
    using length_dropWhile_le [of "\<lambda>x. \<not> isSpace x \<and> x \<noteq> CHR '')''" "drop k r2"] by simp
  also have "\<dots> \<le> length r1" by (simp add: r2_def)
  also have "\<dots> \<le> length r" by (simp add: r1_def length_dropWhile_le)
  finally show ?thesis using s by simp
qed

lemma matchStars_shorter:
  "d \<noteq> [] \<Longrightarrow> matchStars d s = Some (inner, rest) \<Longrightarrow> length rest < length s"
proof -
  assume d: "d \<noteq> []" and a: "matchStars d s = Some (inner, rest)"
  define r where "r = drop (length d) s"
  from a have sw: "startsWith s d" and
    rest: "rest = drop (length d) (dropWhile (\<lambda>x. x \<noteq> CHR ''*'') r)"
    unfolding matchStars_def Let_def r_def by (auto split: if_splits)
  from sw have "length d \<le> length s" by (rule startsWith_length)
  moreover from d have "0 < length d" by simp
  moreover have "length r = length s - length d" by (simp add: r_def)
  moreover have "length rest \<le> length r"
    using length_dropWhile_le [of "\<lambda>x. x \<noteq> CHR ''*''" r] by (simp add: rest)
  ultimately show ?thesis by linarith
qed

lemma matchToken_shorter: "matchToken s = Some (ds, rest) \<Longrightarrow> length rest < length s"
proof -
  assume a: "matchToken s = Some (ds, rest)"
  define r where "r = drop 7 s"
  from a have sw: "startsWith s ''__CODE_''" and rest: "rest = drop 2 (dropWhile isDigit r)"
    unfolding matchToken_def Let_def r_def by (auto split: if_splits)
  from sw have "7 \<le> length s"
    using startsWith_length [of s "''__CODE_''"] by simp
  then have "length r < length s" by (simp add: r_def)
  moreover have "length rest \<le> length r"
    using length_dropWhile_le [of isDigit r] by (simp add: rest)
  ultimately show ?thesis by simp
qed

text \<open>
  Pass 2: every code span becomes the placeholder \<^verbatim>\<open>__CODE_k__\<close>, \<open>k\<close> the number of
  snippets stored so far, and \<^verbatim>\<open><code>...</code>\<close> is appended to \<^verbatim>\<open>codeSnippets\<close>.
\<close>

function extractCode :: "string \<Rightarrow> string list \<Rightarrow> string \<times> string list" where
  "extractCode [] codeSnippets = ([], codeSnippets)"
| "extractCode (c # cs) codeSnippets =
     (case matchCode (c # cs) of
        Some (code, rest) \<Rightarrow>
          (let token = ''__CODE_'' @ showNat (length codeSnippets) @ ''__'';
               (out, snippets') = extractCode rest (codeSnippets @ [''<code>'' @ code @ ''</code>''])
           in (token @ out, snippets'))
      | None \<Rightarrow>
          (let (out, snippets') = extractCode cs codeSnippets in (c # out, snippets')))"
  by pat_completeness auto
termination
  by (relation "measure (\<lambda>(s, sn). length s)") (auto dest: matchCode_shorter)

function convertLinks :: "string \<Rightarrow> string" where
  "convertLinks [] = []"
| "convertLinks (c # cs) =
     (case matchLink (c # cs) of
        Some (label, href, rest) \<Rightarrow>
          ''<a href='' @ [CHR 0x22] @ escapeAttr href @ [CHR 0x22] @ ''>'' @ label @ ''</a>''
            @ convertLinks rest
      | None \<Rightarrow> c # convertLinks cs)"
  by pat_completeness auto
termination
  by (relation "measure length") (auto dest: matchLink_shorter)

function convertBold :: "string \<Rightarrow> string" where
  "convertBold [] = []"
| "convertBold (c # cs) =
     (case matchStars ''**'' (c # cs) of
        Some (inner, rest) \<Rightarrow> ''<strong>'' @ inner @ ''</strong>'' @ convertBold rest
      | None \<Rightarrow> c # convertBold cs)"
  by pat_completeness auto
termination
  by (relation "measure length") (auto dest: matchStars_shorter [rotated])

function convertItalic :: "string \<Rightarrow> string" where
  "convertItalic [] = []"
| "convertItalic (c # cs) =
     (case matchStars ''*'' (c # cs) of
        Some (inner, rest) \<Rightarrow> ''<em>'' @ inner @ ''</em>'' @ convertItalic rest
      | None \<Rightarrow> c # convertItalic cs)"
  by pat_completeness auto
termination
  by (relation "measure length") (auto dest: matchStars_shorter [rotated])

text \<open>
  Pass 6: \<^verbatim>\<open>codeSnippets[Number(index)] || ''\<close>.  An index past the end reads
  \<^verbatim>\<open>undefined\<close> and gives the empty string.
\<close>

function restoreCode :: "string list \<Rightarrow> string \<Rightarrow> string" where
  "restoreCode codeSnippets [] = []"
| "restoreCode codeSnippets (c # cs) =
     (case matchToken (c # cs) of
        Some (ds, rest) \<Rightarrow>
          (if readNat ds < length codeSnippets then codeSnippets ! readNat ds else [])
            @ restoreCode codeSnippets rest
      | None \<Rightarrow> c # restoreCode codeSnippets cs)"
  by pat_completeness auto
termination
  by (relation "measure (\<lambda>(sn, s). length s)") (auto dest: matchToken_shorter)

definition renderInline :: "string \<Rightarrow> string" where
  "renderInline raw =
     (let (escaped, codeSnippets) = extractCode (escapeHtml raw) [];
          withLinks = convertLinks escaped;
          withBold = convertBold withLinks;
          withItalic = convertItalic withBold
      in restoreCode codeSnippets withItalic)"

section \<open>The block renderer\<close>

text \<open>
  A block is the object \<^verbatim>\<open>{ type, ... }\<close> that \<^verbatim>\<open>pushBlock\<close> receives: a paragraph with
  its text, a heading with its level, text and id, a list with its items, a quote with
  its text, a code block with its language and code.
\<close>

datatype block =
    P string
  | Heading nat string string
  | Ul "string list"
  | Ol "string list"
  | Blockquote string
  | Code string string

fun renderBlock :: "block \<Rightarrow> string" where
  \<open>renderBlock (P txt) = ''<p>'' @ renderInline txt @ ''</p>''\<close>
| \<open>renderBlock (Heading lvl txt hid) =
     (let level = min (max lvl 1) 4
      in ''<h'' @ showNat level @ '' id="'' @ escapeAttr hid @ ''">'' @ renderInline txt
           @ ''</h'' @ showNat level @ ''>'')\<close>
| \<open>renderBlock (Ul items) =
     ''<ul>'' @ concat (map (\<lambda>item. ''<li>'' @ renderInline item @ ''</li>'') items) @ ''</ul>''\<close>
| \<open>renderBlock (Ol items) =
     ''<ol>'' @ concat (map (\<lambda>item. ''<li>'' @ renderInline item @ ''</li>'') items) @ ''</ol>''\<close>
| \<open>renderBlock (Blockquote txt) =
     ''<blockquote><p>'' @ renderInline txt @ ''</p></blockquote>''\<close>
| \<open>renderBlock (Code lang code) =
     (let langClass = (if lang \<noteq> [] then '' class="language-'' @ escapeAttr lang @ ''"'' else [])
      in ''<pre><code'' @ langClass @ ''>'' @ escapeHtml code @ ''</code></pre>'')\<close>

section \<open>The Markdown structurer\<close>

subsection \<open>Line patterns\<close>

text \<open>
  Pattern \<^verbatim>\<open>^(#{1,6})\s+(.+)$\<close> on a trimmed line: the level and the captured text.  A
  trimmed line does not end in white space, so the text after the white space is not
  empty when there is white space at all; the case of an empty rest (where the pattern
  could give white space back to the capture) does not arise in \<^verbatim>\<open>parseMarkdown\<close>.
\<close>

definition matchHeading :: "string \<Rightarrow> (nat \<times> string) option" where
  "matchHeading line =
     (let hashes = takeWhile (\<lambda>c. c = CHR ''#'') line;
          r = dropWhile (\<lambda>c. c = CHR ''#'') line;
          ws = takeWhile isSpace r;
          t = dropWhile isSpace r
      in if 1 \<le> length hashes \<and> length hashes \<le> 6 \<and> ws \<noteq> [] \<and> t \<noteq> [] \<and>
            \<not> list_ex isLineTerminator t
         then Some (length hashes, t) else None)"

text \<open>Pattern \<^verbatim>\<open>^#{1,6}\s+\<close>.\<close>

definition isHeadingStart :: "string \<Rightarrow> bool" where
  "isHeadingStart line =
     (let hashes = takeWhile (\<lambda>c. c = CHR ''#'') line;
          r = dropWhile (\<lambda>c. c = CHR ''#'') line
      in 1 \<le> length hashes \<and> length hashes \<le> 6 \<and> r \<noteq> [] \<and> isSpace (hd r))"

text \<open>Pattern \<^verbatim>\<open>^```\<close>.\<close>

definition isFence :: "string \<Rightarrow> bool" where
  "isFence line = startsWith line [CHR 0x60, CHR 0x60, CHR 0x60]"

text \<open>Pattern \<^verbatim>\<open>^-\s+\<close>: the text after the match, which is what replacing it by '' leaves.\<close>

definition matchUl :: "string \<Rightarrow> string option" where
  "matchUl line =
     (case line of
        [] \<Rightarrow> None
      | c # r \<Rightarrow> if c = CHR ''-'' \<and> r \<noteq> [] \<and> isSpace (hd r) then Some (dropWhile isSpace r) else None)"

text \<open>Pattern \<^verbatim>\<open>^\d+\.\s+\<close>.\<close>

definition matchOl :: "string \<Rightarrow> string option" where
  "matchOl line =
     (let ds = takeWhile isDigit line;
          r = dropWhile isDigit line
      in if ds \<noteq> [] \<and> startsWith r ''.'' \<and> tl r \<noteq> [] \<and> isSpace (hd (tl r))
         then Some (dropWhile isSpace (tl r)) else None)"

text \<open>Pattern \<^verbatim>\<open>^>\s?\<close>.\<close>

definition matchQuote :: "string \<Rightarrow> string option" where
  "matchQuote line =
     (case line of
        [] \<Rightarrow> None
      | c # r \<Rightarrow>
          if c = CHR ''>'' then Some (if r \<noteq> [] \<and> isSpace (hd r) then tl r else r) else None)"

definition isBoundary :: "string \<Rightarrow> bool" where
  "isBoundary line =
     (isHeadingStart line \<or> matchUl line \<noteq> None \<or> matchOl line \<noteq> None \<or>
      matchQuote line \<noteq> None \<or> isFence line)"

definition normalizeChapterTitle :: "string \<Rightarrow> string" where
  "normalizeChapterTitle title =
     trim (case matchOl title of Some rest \<Rightarrow> rest | None \<Rightarrow> title)"

subsection \<open>The parser state\<close>

text \<open>
  The subsection objects are shared: one object is an element of its parent's
  \<^verbatim>\<open>children\<close> (or of the chapter's \<^verbatim>\<open>subsections\<close>) and of \<^verbatim>\<open>subsectionStack\<close>, and
  \<^verbatim>\<open>parent.children.push\<close> changes it through the stack.  They live in a store, a list
  indexed by address, and the arrays hold addresses.  \<^verbatim>\<open>activeChapter\<close> is the index of
  the chapter object in \<^verbatim>\<open>chapters\<close>, or \<open>None\<close> for \<^verbatim>\<open>null\<close>.
\<close>

record subsection_obj =
  sub_id :: string
  sub_level :: nat
  sub_title :: string
  sub_children :: "nat list"

record chapter_obj =
  ch_title :: string
  ch_id :: string
  ch_blocks :: "block list"
  ch_subsections :: "nat list"

record pstate =
  introBlocks :: "block list"
  chapters :: "chapter_obj list"
  usedIds :: "string list"
  activeChapter :: "nat option"
  subsectionStack :: "nat list"
  store :: "subsection_obj list"

definition initState :: pstate where
  "initState = \<lparr>introBlocks = [], chapters = [], usedIds = [], activeChapter = None,
                 subsectionStack = [], store = []\<rparr>"

subsection \<open>Anchor ids\<close>

text \<open>The \<^verbatim>\<open>while (usedIds.has(id))\<close> loop of \<^verbatim>\<open>uniqueId\<close>.\<close>

function uniqueIdLoop :: "string list \<Rightarrow> string \<Rightarrow> string \<Rightarrow> nat \<Rightarrow> string" where
  "uniqueIdLoop used base cand n =
     (if cand \<in> set used then uniqueIdLoop used base (base @ ''-'' @ showNat n) (n + 1)
      else cand)"
  by pat_completeness auto

lemma digitVal_digitChar: "d < 10 \<Longrightarrow> digitVal (digitChar d) = d"
  by (simp add: digitVal_def digitChar_def)

lemma readNat_snoc: "readNat (s @ [c]) = 10 * readNat s + digitVal c"
  by (simp add: readNat_def)

lemma readNat_showNat: "readNat (showNat n) = n"
proof (induction n rule: showNat.induct)
  case (1 n)
  show ?case
  proof (cases "n < 10")
    case True
    then show ?thesis
      by (subst showNat.simps) (simp add: readNat_def digitVal_digitChar)
  next
    case False
    with "1" have "readNat (showNat (n div 10)) = n div 10" by simp
    with False show ?thesis
      by (subst showNat.simps) (simp add: readNat_snoc digitVal_digitChar)
  qed
qed

lemma showNat_inj: "showNat m = showNat n \<Longrightarrow> m = n"
  by (metis readNat_showNat)

lemma finite_candidates: "finite {m. n \<le> m \<and> base @ ''-'' @ showNat m \<in> set used}"
proof -
  have "inj (\<lambda>m. base @ ''-'' @ showNat m)"
    by (rule injI) (simp add: showNat_inj)
  then have "finite ((\<lambda>m. base @ ''-'' @ showNat m) -` set used)"
    by (simp add: finite_vimageI)
  moreover have "{m. n \<le> m \<and> base @ ''-'' @ showNat m \<in> set used}
      \<subseteq> (\<lambda>m. base @ ''-'' @ showNat m) -` set used"
    by auto
  ultimately show ?thesis by (rule rev_finite_subset)
qed

lemma candidates_step:
  "2 * card {m. n + 1 \<le> m \<and> base @ ''-'' @ showNat m \<in> set used}
     + (if base @ ''-'' @ showNat n \<in> set used then 1 else 0)
   < 2 * card {m. n \<le> m \<and> base @ ''-'' @ showNat m \<in> set used} + 1"
proof (cases "base @ ''-'' @ showNat n \<in> set used")
  case True
  have "{m. n \<le> m \<and> base @ ''-'' @ showNat m \<in> set used}
      = insert n {m. n + 1 \<le> m \<and> base @ ''-'' @ showNat m \<in> set used}"
    using True by (auto simp: Suc_le_eq le_less)
  then have "card {m. n \<le> m \<and> base @ ''-'' @ showNat m \<in> set used}
      = Suc (card {m. n + 1 \<le> m \<and> base @ ''-'' @ showNat m \<in> set used})"
    using finite_candidates [of "n + 1" base used] by simp
  with True show ?thesis by simp
next
  case False
  have "{m. n \<le> m \<and> base @ ''-'' @ showNat m \<in> set used}
      = {m. n + 1 \<le> m \<and> base @ ''-'' @ showNat m \<in> set used}"
    using False by (auto simp: Suc_le_eq le_less)
  with False show ?thesis by simp
qed

termination uniqueIdLoop
proof (relation "measure (\<lambda>(used, base, cand, n).
    2 * card {m. n \<le> m \<and> base @ ''-'' @ showNat m \<in> set used}
      + (if cand \<in> set used then 1 else 0))")
  show "wf (measure (\<lambda>(used, base, cand, n).
    2 * card {m. n \<le> m \<and> base @ ''-'' @ showNat m \<in> set used}
      + (if cand \<in> set used then 1 else 0)))"
    by simp
next
  fix used :: "string list" and base cand :: string and n :: nat
  assume "cand \<in> set used"
  then show "((used, base, base @ ''-'' @ showNat n, n + 1), (used, base, cand, n))
    \<in> measure (\<lambda>(used, base, cand, n).
        2 * card {m. n \<le> m \<and> base @ ''-'' @ showNat m \<in> set used}
          + (if cand \<in> set used then 1 else 0))"
    using candidates_step [of n base used] by simp
qed

declare uniqueIdLoop.simps [simp del]

text \<open>
  \<^verbatim>\<open>uniqueId(prefix, text, fallback)\<close>: the empty slug is falsy, so the base falls back;
  the id found is added to \<^verbatim>\<open>usedIds\<close>.
\<close>

definition idBase :: "string \<Rightarrow> string \<Rightarrow> string \<Rightarrow> string" where
  "idBase pre txt fallback =
     pre @ ''-'' @ (if slugify txt = [] then fallback else slugify txt)"

definition uniqueId :: "string \<Rightarrow> string \<Rightarrow> string \<Rightarrow> pstate \<Rightarrow> string \<times> pstate" where
  "uniqueId pre txt fallback st =
     (let base = idBase pre txt fallback;
          hid = uniqueIdLoop (usedIds st) base base 2
      in (hid, st\<lparr>usedIds := usedIds st @ [hid]\<rparr>))"

subsection \<open>Blocks and subsections\<close>

definition pushBlock :: "block \<Rightarrow> pstate \<Rightarrow> pstate" where
  "pushBlock b st =
     (case activeChapter st of
        Some k \<Rightarrow>
          st\<lparr>chapters := (chapters st)
               [k := (chapters st ! k)\<lparr>ch_blocks := ch_blocks (chapters st ! k) @ [b]\<rparr>]\<rparr>
      | None \<Rightarrow> st\<lparr>introBlocks := introBlocks st @ [b]\<rparr>)"

text \<open>
  The loop \<^verbatim>\<open>while (stack.length && stack[stack.length - 1].level >= level) stack.pop()\<close>;
  the top of the stack is its last element.
\<close>

function popStack :: "subsection_obj list \<Rightarrow> nat \<Rightarrow> nat list \<Rightarrow> nat list" where
  "popStack h level stack =
     (if stack \<noteq> [] \<and> level \<le> sub_level (h ! last stack)
      then popStack h level (butlast stack) else stack)"
  by pat_completeness auto
termination
  by (relation "measure (\<lambda>(h, level, stack). length stack)") auto

declare popStack.simps [simp del]

text \<open>
  The branch \<^verbatim>\<open>if (activeChapter && level >= 3)\<close>, for the active chapter \<open>k\<close>: a new
  subsection object at the next free address, attached to the stack's top after
  popping, or to the chapter when the stack is empty, and pushed.
\<close>

definition addSubsection :: "nat \<Rightarrow> string \<Rightarrow> nat \<Rightarrow> string \<Rightarrow> pstate \<Rightarrow> pstate" where
  "addSubsection k hid level txt st =
     (let a = length (store st);
          h = store st @ [\<lparr>sub_id = hid, sub_level = level, sub_title = txt, sub_children = []\<rparr>];
          stack = popStack h level (subsectionStack st);
          st1 =
            (if stack \<noteq> [] then
               st\<lparr>store := h[last stack :=
                     (h ! last stack)\<lparr>sub_children := sub_children (h ! last stack) @ [a]\<rparr>]\<rparr>
             else
               st\<lparr>store := h,
                  chapters := (chapters st)
                    [k := (chapters st ! k)
                       \<lparr>ch_subsections := ch_subsections (chapters st ! k) @ [a]\<rparr>]\<rparr>)
      in st1\<lparr>subsectionStack := stack @ [a]\<rparr>)"

text \<open>
  The heading branch of the loop, for the line at index \<open>i\<close> with level \<open>level\<close> and
  trimmed text \<open>txt\<close>.
\<close>

definition handleHeading :: "nat \<Rightarrow> nat \<Rightarrow> string \<Rightarrow> pstate \<Rightarrow> pstate" where
  "handleHeading i level txt st =
     (if level = 2 then
        (let title = normalizeChapterTitle txt;
             (hid, st1) = uniqueId (''chapter-'' @ showNat (length (chapters st) + 1)) title
                            (showNat (length (chapters st) + 1)) st;
             chapter = \<lparr>ch_title = title, ch_id = hid, ch_blocks = [], ch_subsections = []\<rparr>
         in st1\<lparr>chapters := chapters st1 @ [chapter],
                activeChapter := Some (length (chapters st1)),
                subsectionStack := []\<rparr>)
      else
        (let (hid, st1) = uniqueId ''section'' txt (showNat (i + 1)) st;
             st2 = (case activeChapter st1 of
                      Some k \<Rightarrow> if 3 \<le> level then addSubsection k hid level txt st1 else st1
                    | None \<Rightarrow> st1)
         in pushBlock (Heading level txt hid) st2))"

subsection \<open>The line loop\<close>

text \<open>The inner loop of a code fence: the raw lines up to the closing fence or the end.\<close>

function scanFence :: "string list \<Rightarrow> nat \<Rightarrow> string list \<Rightarrow> string list \<times> nat" where
  "scanFence lines i codeLines =
     (if i < length lines \<and> \<not> isFence (trim (lines ! i))
      then scanFence lines (i + 1) (codeLines @ [lines ! i]) else (codeLines, i))"
  by pat_completeness auto
termination
  by (relation "measure (\<lambda>(lines, i, acc). length lines - i)") auto

declare scanFence.simps [simp del]

text \<open>
  The inner loops of the two lists and the quote have one shape: while the trimmed line
  matches the marker \<open>m\<close>, push the line without the marker.
\<close>

function scanItems ::
  "(string \<Rightarrow> string option) \<Rightarrow> string list \<Rightarrow> nat \<Rightarrow> string list \<Rightarrow> string list \<times> nat" where
  "scanItems m lines i items =
     (if i < length lines then
        (case m (trim (lines ! i)) of
           Some rest \<Rightarrow> scanItems m lines (i + 1) (items @ [rest])
         | None \<Rightarrow> (items, i))
      else (items, i))"
  by pat_completeness auto
termination
  by (relation "measure (\<lambda>(m, lines, i, acc). length lines - i)") auto

declare scanItems.simps [simp del]

text \<open>The inner loop of a paragraph: a blank line is consumed, a boundary line is not.\<close>

function scanParagraph :: "string list \<Rightarrow> nat \<Rightarrow> string list \<Rightarrow> string list \<times> nat" where
  "scanParagraph lines i paragraph =
     (if i < length lines then
        (let current = trim (lines ! i)
         in if current = [] then (paragraph, i + 1)
            else if isBoundary current then (paragraph, i)
            else scanParagraph lines (i + 1) (paragraph @ [current]))
      else (paragraph, i))"
  by pat_completeness auto
termination
  by (relation "measure (\<lambda>(lines, i, acc). length lines - i)") auto

declare scanParagraph.simps [simp del]

text \<open>One iteration of the outer loop at index \<open>i < lines.length\<close>: the next index and state.\<close>

definition parseStep :: "string list \<Rightarrow> nat \<Rightarrow> pstate \<Rightarrow> nat \<times> pstate" where
  "parseStep lines i st =
     (let line = trim (lines ! i)
      in if line = [] then (i + 1, st)
         else
           (case matchHeading line of
              Some (level, t) \<Rightarrow> (i + 1, handleHeading i level (trim t) st)
            | None \<Rightarrow>
                if isFence line then
                  (let lang = toLowerCase (trim (drop 3 line));
                       (codeLines, j) = scanFence lines (i + 1) [];
                       j' = (if j < length lines \<and> isFence (trim (lines ! j)) then j + 1 else j)
                   in (j', pushBlock (Code lang (joinWith [CHR 0x0A] codeLines)) st))
                else if matchUl line \<noteq> None then
                  (let (items, j) = scanItems matchUl lines i []
                   in (j, pushBlock (Ul items) st))
                else if matchOl line \<noteq> None then
                  (let (items, j) = scanItems matchOl lines i []
                   in (j, pushBlock (Ol items) st))
                else if matchQuote line \<noteq> None then
                  (let (quoteLines, j) = scanItems matchQuote lines i []
                   in (j, pushBlock (Blockquote (joinWith '' '' quoteLines)) st))
                else
                  (let (paragraph, j) = scanParagraph lines (i + 1) [line]
                   in (j, pushBlock (P (joinWith '' '' paragraph)) st))))"

lemma scanFence_ge: "i \<le> snd (scanFence lines i acc)"
proof (induction lines i acc rule: scanFence.induct)
  case (1 lines i codeLines)
  show ?case
  proof (cases "i < length lines \<and> \<not> isFence (trim (lines ! i))")
    case True
    with "1.IH" have "i + 1 \<le> snd (scanFence lines (i + 1) (codeLines @ [lines ! i]))"
      by simp
    with True show ?thesis by (subst scanFence.simps) simp
  next
    case False
    then show ?thesis by (subst scanFence.simps) auto
  qed
qed

lemma scanItems_ge: "i \<le> snd (scanItems m lines i acc)"
proof (induction m lines i acc rule: scanItems.induct)
  case (1 m lines i items)
  show ?case
  proof (cases "i < length lines")
    case True
    show ?thesis
    proof (cases "m (trim (lines ! i))")
      case None
      with True show ?thesis by (subst scanItems.simps) simp
    next
      case (Some rest)
      with True "1.IH" have "i + 1 \<le> snd (scanItems m lines (i + 1) (items @ [rest]))"
        by simp
      with True Some show ?thesis by (subst scanItems.simps) simp
    qed
  next
    case False
    then show ?thesis by (subst scanItems.simps) simp
  qed
qed

lemma scanItems_gt:
  "i < length lines \<Longrightarrow> m (trim (lines ! i)) \<noteq> None \<Longrightarrow> i < snd (scanItems m lines i acc)"
proof -
  assume i: "i < length lines" and m: "m (trim (lines ! i)) \<noteq> None"
  then obtain rest where r: "m (trim (lines ! i)) = Some rest" by auto
  have "i + 1 \<le> snd (scanItems m lines (i + 1) (acc @ [rest]))" by (rule scanItems_ge)
  with i r show ?thesis by (subst scanItems.simps) simp
qed

lemma scanParagraph_ge: "i \<le> snd (scanParagraph lines i acc)"
proof (induction lines i acc rule: scanParagraph.induct)
  case (1 lines i acc)
  show ?case
  proof (cases "i < length lines \<and> trim (lines ! i) \<noteq> [] \<and> \<not> isBoundary (trim (lines ! i))")
    case True
    with "1.IH" have "i + 1 \<le> snd (scanParagraph lines (i + 1) (acc @ [trim (lines ! i)]))"
      by simp
    with True show ?thesis by (subst scanParagraph.simps) (simp add: Let_def)
  next
    case False
    then show ?thesis by (subst scanParagraph.simps) (auto simp: Let_def)
  qed
qed

lemma parseStep_advances: "i < length lines \<Longrightarrow> i < fst (parseStep lines i st)"
proof -
  assume i: "i < length lines"
  have f: "i < snd (scanFence lines (i + 1) [])"
    using scanFence_ge [of "i + 1" lines "[]"] by simp
  have p: "i < snd (scanParagraph lines (i + 1) [trim (lines ! i)])"
    using scanParagraph_ge [of "i + 1" lines "[trim (lines ! i)]"] by simp
  have u: "matchUl (trim (lines ! i)) \<noteq> None \<Longrightarrow> i < snd (scanItems matchUl lines i [])"
    using i by (rule scanItems_gt)
  have ol: "matchOl (trim (lines ! i)) \<noteq> None \<Longrightarrow> i < snd (scanItems matchOl lines i [])"
    using i by (rule scanItems_gt)
  have q: "matchQuote (trim (lines ! i)) \<noteq> None
      \<Longrightarrow> i < snd (scanItems matchQuote lines i [])"
    using i by (rule scanItems_gt)
  show ?thesis
    using f p u ol q
    by (simp add: parseStep_def Let_def case_prod_beta less_SucI split: option.split)
qed

function parseLoop :: "string list \<Rightarrow> nat \<Rightarrow> pstate \<Rightarrow> pstate" where
  "parseLoop lines i st =
     (if i < length lines then
        (case parseStep lines i st of (j, st') \<Rightarrow> parseLoop lines j st')
      else st)"
  by pat_completeness auto
termination
proof (relation "measure (\<lambda>(lines, i, st). length lines - i)")
  show "wf (measure (\<lambda>(lines, i, st). length lines - i))" by simp
next
  fix lines :: "string list" and i :: nat and st st' :: pstate and j :: nat
  assume "i < length lines" and "(j, st') = parseStep lines i st"
  then have "i < j" using parseStep_advances [of i lines st] by (metis fst_conv)
  with \<open>i < length lines\<close>
  show "((lines, j, st'), (lines, i, st)) \<in> measure (\<lambda>(lines, i, st). length lines - i)"
    by simp
qed

declare parseLoop.simps [simp del]

definition parseMarkdown :: "string \<Rightarrow> pstate" where
  "parseMarkdown markdown = parseLoop (splitLines (replaceCRLF markdown)) 0 initState"

subsection \<open>What the outline holds\<close>

text \<open>
  \<^verbatim>\<open>parseMarkdown\<close> returns \<^verbatim>\<open>{ introBlocks, chapters }\<close>: the fields \<open>introBlocks\<close> and
  \<open>chapters\<close> of the final state, with the subsection objects in \<open>store\<close>.  The anchor
  ids of an outline are the chapters' ids and the ids of the heading blocks.
\<close>

fun headingIds :: "block list \<Rightarrow> string list" where
  "headingIds [] = []"
| "headingIds (Heading lvl txt hid # bs) = hid # headingIds bs"
| "headingIds (b # bs) = headingIds bs"

definition allBlocks :: "pstate \<Rightarrow> block list" where
  "allBlocks st = introBlocks st @ concat (map ch_blocks (chapters st))"

definition allIds :: "pstate \<Rightarrow> string list" where
  "allIds st =
     map ch_id (chapters st) @ headingIds (introBlocks st)
       @ concat (map (\<lambda>ch. headingIds (ch_blocks ch)) (chapters st))"

definition activeIsLast :: "pstate \<Rightarrow> bool" where
  "activeIsLast st =
     (activeChapter st = (if chapters st = [] then None else Some (length (chapters st) - 1)))"

definition idsInv :: "pstate \<Rightarrow> bool" where
  "idsInv st = (activeIsLast st \<and> mset (allIds st) = mset (usedIds st) \<and> distinct (usedIds st))"

text \<open>
  An id has the base \<open>base\<close> when it is the base itself or the base followed by \<^verbatim>\<open>-n\<close>,
  \<open>n\<close> written in decimal and at least 2: what \<^verbatim>\<open>uniqueId\<close> can return for that base.
\<close>

definition hasBase :: "string \<Rightarrow> string \<Rightarrow> bool" where
  "hasBase hid base =
     (hid = base \<or>
      (startsWith hid (base @ ''-'') \<and>
       (let d = drop (length base + 1) hid in 2 \<le> readNat d \<and> d = showNat (readNat d))))"

definition chaptersOk :: "pstate \<Rightarrow> bool" where
  "chaptersOk st =
     (\<forall>k < length (chapters st).
        hasBase (ch_id (chapters st ! k))
          (idBase (''chapter-'' @ showNat (k + 1)) (ch_title (chapters st ! k)) (showNat (k + 1))))"

definition blockOk :: "string list \<Rightarrow> block \<Rightarrow> bool" where
  "blockOk lines b =
     (case b of
        Heading lvl txt hid \<Rightarrow>
          lvl \<noteq> 2 \<and>
          (\<exists>i < length lines. \<exists>t. matchHeading (trim (lines ! i)) = Some (lvl, t) \<and> trim t = txt \<and>
             hasBase hid (idBase ''section'' txt (showNat (i + 1))))
      | _ \<Rightarrow> True)"

definition baseInv :: "string list \<Rightarrow> pstate \<Rightarrow> bool" where
  "baseInv lines st =
     (activeIsLast st \<and> chaptersOk st \<and> (\<forall>b \<in> set (allBlocks st). blockOk lines b))"

subsection \<open>The lines of the headings\<close>

text \<open>
  The index at which the loop goes on after its iteration at \<open>i\<close> depends on the lines
  only, not on the state (\<open>parseStep_index\<close>).  \<open>lineHeadings lines i\<close> follows the
  loop from index \<open>i\<close> and lists, in order, the lines at which it meets a heading of a
  level other than 2: the index of the line (from 0), the level and the trimmed text.
  A line that a code fence, a list, a quote or a paragraph has consumed is not met.
\<close>

definition nextLine :: "string list \<Rightarrow> nat \<Rightarrow> nat" where
  "nextLine lines i = fst (parseStep lines i initState)"

lemma parseStep_index: "fst (parseStep lines i st) = nextLine lines i"
  by (cases "matchHeading (trim (lines ! i))")
     (auto simp: nextLine_def parseStep_def Let_def case_prod_beta)

lemma nextLine_advances: "i < length lines \<Longrightarrow> i < nextLine lines i"
  unfolding nextLine_def by (rule parseStep_advances)

definition headingAt :: "string list \<Rightarrow> nat \<Rightarrow> (nat \<times> nat \<times> string) list" where
  "headingAt lines i =
     (case matchHeading (trim (lines ! i)) of
        Some (level, t) \<Rightarrow> if level = 2 then [] else [(i, level, trim t)]
      | None \<Rightarrow> [])"

function lineHeadings :: "string list \<Rightarrow> nat \<Rightarrow> (nat \<times> nat \<times> string) list" where
  "lineHeadings lines i =
     (if i < length lines then headingAt lines i @ lineHeadings lines (nextLine lines i) else [])"
  by pat_completeness auto
termination
proof (relation "measure (\<lambda>(lines, i). length lines - i)")
  show "wf (measure (\<lambda>(lines, i). length lines - i))" by simp
next
  fix lines :: "string list" and i :: nat
  assume "i < length lines"
  then show "((lines, nextLine lines i), (lines, i)) \<in> measure (\<lambda>(lines, i). length lines - i)"
    using nextLine_advances [of i lines] by (simp add: diff_less_mono2)
qed

declare lineHeadings.simps [simp del]

text \<open>
  \<open>sectionIdAt b (i, lvl, txt)\<close>: the block \<open>b\<close> is the heading block of that level and
  text, and its id is one that \<^verbatim>\<open>uniqueId\<close> can return for the base \<^verbatim>\<open>section-slug\<close>, or
  for the base \<^verbatim>\<open>section-n\<close> with \<open>n = i + 1\<close> when the slug is empty.
\<close>

definition isHeadingBlock :: "block \<Rightarrow> bool" where
  "isHeadingBlock b = (case b of Heading lvl txt hid \<Rightarrow> True | _ \<Rightarrow> False)"

definition sectionIdAt :: "block \<Rightarrow> nat \<times> nat \<times> string \<Rightarrow> bool" where
  "sectionIdAt b h =
     (case b of
        Heading l t hid \<Rightarrow>
          (case h of (i, lvl, txt) \<Rightarrow>
             l = lvl \<and> t = txt \<and>
             hasBase hid (''section-'' @ (if slugify txt = [] then showNat (i + 1) else slugify txt)))
      | _ \<Rightarrow> False)"

section \<open>The page assembler\<close>

subsection \<open>The outline as a value\<close>

text \<open>
  The renderers walk the object graph that \<^verbatim>\<open>parseMarkdown\<close> returned.  \<open>readTree\<close> reads
  the subsection object at an address of the store as a tree; the fuel bounds the depth
  of the walk, and \<open>None\<close> is a walk that does not end (a store with a cycle or a
  dangling address, which the structurer never builds: \<open>readTree_total\<close>).
\<close>

datatype toc_node = TocNode string nat string "toc_node list"

fun node_id :: "toc_node \<Rightarrow> string" where
  "node_id (TocNode hid lvl title cs) = hid"

fun node_level :: "toc_node \<Rightarrow> nat" where
  "node_level (TocNode hid lvl title cs) = lvl"

fun node_title :: "toc_node \<Rightarrow> string" where
  "node_title (TocNode hid lvl title cs) = title"

fun node_children :: "toc_node \<Rightarrow> toc_node list" where
  "node_children (TocNode hid lvl title cs) = cs"



subsection \<open>The table of contents\<close>






subsection \<open>The page\<close>














subsection \<open>Documents without chapters\<close>

text \<open>
  \<open>chapterLines lines i\<close> follows the loop from index \<open>i\<close> as \<open>lineHeadings\<close> does and
  lists the lines at which it meets a level-2 heading.  A body contains no level-2
  heading when there is no such line; a line \<^verbatim>\<open>## ...\<close> inside a code fence is not one.
\<close>

definition chapterAt :: "string list \<Rightarrow> nat \<Rightarrow> nat list" where
  "chapterAt lines i =
     (case matchHeading (trim (lines ! i)) of
        Some (level, t) \<Rightarrow> if level = 2 then [i] else []
      | None \<Rightarrow> [])"

function chapterLines :: "string list \<Rightarrow> nat \<Rightarrow> nat list" where
  "chapterLines lines i =
     (if i < length lines then chapterAt lines i @ chapterLines lines (nextLine lines i) else [])"
  by pat_completeness auto
termination
proof (relation "measure (\<lambda>(lines, i). length lines - i)")
  show "wf (measure (\<lambda>(lines, i). length lines - i))" by simp
next
  fix lines :: "string list" and i :: nat
  assume "i < length lines"
  then show "((lines, nextLine lines i), (lines, i)) \<in> measure (\<lambda>(lines, i). length lines - i)"
    using nextLine_advances [of i lines] by (simp add: diff_less_mono2)
qed

declare chapterLines.simps [simp del]





subsection \<open>The subsection objects\<close>




subsection \<open>The lines of the table of contents\<close>

















section \<open>Properties of the inline renderer\<close>

lemma set_replaceAllChar:
  "set (replaceAllChar c rep s) = (set s - {c}) \<union> (if c \<in> set s then set rep else {})"
  by (induction s) (auto simp: replaceAllChar_def)

lemma escapeHtml_no_markup:
  \<open>CHR ''<'' \<notin> set (escapeHtml v) \<and> CHR ''>'' \<notin> set (escapeHtml v) \<and>
   CHR 0x22 \<notin> set (escapeHtml v) \<and> CHR 0x27 \<notin> set (escapeHtml v)\<close>
  by (simp add: escapeHtml_def set_replaceAllChar)

text \<open>
  C5.  Inline rendering is injection-safe.  The input \<^verbatim>\<open><script>&</script>\<close> renders as
  text in which the sensitive characters are entities, so that no angle bracket is left
  in the output; a code span holding \<^verbatim>\<open><b>\<close> renders as a \<^verbatim>\<open><code>\<close> element around the
  escaped angle brackets; and the escaping pass that every input goes through first
  leaves none of the characters \<^verbatim>\<open><\<close>, \<^verbatim>\<open>>\<close>, double quote and single quote.
\<close>

theorem renderInline_injection_safe:
  \<open>renderInline ''<script>&</script>'' = ''&lt;script&gt;&amp;&lt;/script&gt;'' \<and>
   CHR ''<'' \<notin> set (renderInline ''<script>&</script>'') \<and>
   CHR ''>'' \<notin> set (renderInline ''<script>&</script>'') \<and>
   renderInline ([CHR 0x60] @ ''<b>'' @ [CHR 0x60]) = ''<code>&lt;b&gt;</code>'' \<and>
   (\<forall>v. CHR ''<'' \<notin> set (escapeHtml v) \<and> CHR ''>'' \<notin> set (escapeHtml v) \<and>
        CHR 0x22 \<notin> set (escapeHtml v) \<and> CHR 0x27 \<notin> set (escapeHtml v))\<close>
proof -
  have a: \<open>renderInline ''<script>&</script>'' = ''&lt;script&gt;&amp;&lt;/script&gt;''\<close>
    by code_simp
  have b: \<open>renderInline ([CHR 0x60] @ ''<b>'' @ [CHR 0x60]) = ''<code>&lt;b&gt;</code>''\<close>
    by code_simp
  from a have c: \<open>CHR ''<'' \<notin> set (renderInline ''<script>&</script>'')\<close>
    and d: \<open>CHR ''>'' \<notin> set (renderInline ''<script>&</script>'')\<close>
    by simp_all
  from a b c d escapeHtml_no_markup show ?thesis by blast
qed

text \<open>
  C4.  The passes run in the order escape, code spans, links, bold, italic, restore, and
  the content of a code span is escaped once.  A link target is not: the whole text is
  escaped by the first pass and \<^verbatim>\<open>escapeAttr\<close> escapes the matched target again, so an
  ampersand in a target reaches the page as \<^verbatim>\<open>&amp;amp;\<close>.
\<close>

theorem renderInline_link_target_escaped_twice:
  \<open>renderInline ''[a](http://x.com/?a=1&b=2)'' = ''<a href="http://x.com/?a=1&amp;amp;b=2">a</a>'' \<and>
   renderInline ([CHR 0x60] @ ''a&b'' @ [CHR 0x60]) = ''<code>a&amp;b</code>''\<close>
  by code_simp

section \<open>Properties of the structurer\<close>

subsection \<open>Anchor ids are unique\<close>

lemma parseLoop_invariant:
  "(\<And>i st. i < length lines \<Longrightarrow> Q st \<Longrightarrow> Q (snd (parseStep lines i st))) \<Longrightarrow> Q st
     \<Longrightarrow> Q (parseLoop lines i st)"
proof (induction lines i st rule: parseLoop.induct)
  case (1 lines i st)
  show ?case
  proof (cases "i < length lines")
    case True
    obtain j st' where js: "parseStep lines i st = (j, st')" by (cases "parseStep lines i st")
    have "Q st'" using "1.prems"(1) [OF True "1.prems"(2)] js by simp
    then have "Q (parseLoop lines j st')"
      using "1.IH" [OF True js [symmetric]] "1.prems"(1) by blast
    then show ?thesis using True js by (subst parseLoop.simps) simp
  next
    case False
    then show ?thesis using "1.prems"(2) by (subst parseLoop.simps) simp
  qed
qed

lemma uniqueIdLoop_fresh: "uniqueIdLoop used base cand n \<notin> set used"
proof (induction used base cand n rule: uniqueIdLoop.induct)
  case (1 used base cand n)
  then show ?case by (subst uniqueIdLoop.simps) auto
qed

lemma uniqueId_result:
  "uniqueId pre txt fb st = (hid, st1) \<Longrightarrow>
     hid \<notin> set (usedIds st) \<and> st1 = st\<lparr>usedIds := usedIds st @ [hid]\<rparr>"
  using uniqueIdLoop_fresh [of "usedIds st" "idBase pre txt fb" "idBase pre txt fb" 2]
  by (auto simp: uniqueId_def Let_def)

lemma headingIds_append: "headingIds (bs @ cs) = headingIds bs @ headingIds cs"
  by (induction bs rule: headingIds.induct) auto

lemma mset_concat_update:
  "k < length xs \<Longrightarrow>
     mset (concat (map g (xs[k := x]))) + mset (g (xs ! k)) = mset (concat (map g xs)) + mset (g x)"
proof (induction xs arbitrary: k)
  case Nil
  then show ?case by simp
next
  case (Cons a xs)
  show ?case
  proof (cases k)
    case 0
    then show ?thesis by simp
  next
    case (Suc m)
    with Cons.prems have "m < length xs" by simp
    from Cons.IH [OF this] Suc show ?thesis by (simp add: ac_simps)
  qed
qed

lemma map_update_same: "f x = f (xs ! k) \<Longrightarrow> map f (xs[k := x]) = map f xs"
  by (metis list_update_id map_update)

lemma pushBlock_ids:
  assumes "activeIsLast st"
  shows "mset (allIds (pushBlock b st)) = mset (allIds st) + mset (headingIds [b])"
proof (cases "activeChapter st")
  case None
  then show ?thesis by (simp add: pushBlock_def allIds_def headingIds_append)
next
  case (Some k)
  with assms have k: "k < length (chapters st)"
    by (auto simp: activeIsLast_def split: if_splits)
  let ?c = "(chapters st ! k)\<lparr>ch_blocks := ch_blocks (chapters st ! k) @ [b]\<rparr>"
  have "mset (concat (map (\<lambda>ch. headingIds (ch_blocks ch)) ((chapters st)[k := ?c])))
          + mset (headingIds (ch_blocks (chapters st ! k)))
        = mset (concat (map (\<lambda>ch. headingIds (ch_blocks ch)) (chapters st)))
          + mset (headingIds (ch_blocks ?c))"
    using mset_concat_update [OF k, of "\<lambda>ch. headingIds (ch_blocks ch)" ?c] .
  then have "mset (concat (map (\<lambda>ch. headingIds (ch_blocks ch)) ((chapters st)[k := ?c])))
        = mset (concat (map (\<lambda>ch. headingIds (ch_blocks ch)) (chapters st))) + mset (headingIds [b])"
    by (simp add: headingIds_append)
  moreover have "map ch_id ((chapters st)[k := ?c]) = map ch_id (chapters st)"
    by (rule map_update_same) simp
  ultimately show ?thesis using Some by (simp add: pushBlock_def allIds_def)
qed

lemma pushBlock_fields:
  "usedIds (pushBlock b st) = usedIds st"
  "activeChapter (pushBlock b st) = activeChapter st"
  "length (chapters (pushBlock b st)) = length (chapters st)"
  "subsectionStack (pushBlock b st) = subsectionStack st"
  "store (pushBlock b st) = store st"
  by (auto simp: pushBlock_def split: option.splits)

lemma pushBlock_activeIsLast: "activeIsLast st \<Longrightarrow> activeIsLast (pushBlock b st)"
  by (auto simp: activeIsLast_def pushBlock_def split: option.splits)

lemma addSubsection_fields:
  "usedIds (addSubsection k hid level txt st) = usedIds st"
  "activeChapter (addSubsection k hid level txt st) = activeChapter st"
  "length (chapters (addSubsection k hid level txt st)) = length (chapters st)"
  "introBlocks (addSubsection k hid level txt st) = introBlocks st"
  "map ch_id (chapters (addSubsection k hid level txt st)) = map ch_id (chapters st)"
  "map ch_blocks (chapters (addSubsection k hid level txt st)) = map ch_blocks (chapters st)"
  "map ch_title (chapters (addSubsection k hid level txt st)) = map ch_title (chapters st)"
  by (auto simp: addSubsection_def Let_def map_update_same)

lemma addSubsection_allIds: "allIds (addSubsection k hid level txt st) = allIds st"
proof -
  have "map (\<lambda>ch. headingIds (ch_blocks ch)) (chapters (addSubsection k hid level txt st))
      = map headingIds (map ch_blocks (chapters (addSubsection k hid level txt st)))"
    by simp
  also have "\<dots> = map (\<lambda>ch. headingIds (ch_blocks ch)) (chapters st)"
    by (simp only: addSubsection_fields) simp
  finally show ?thesis by (simp add: allIds_def addSubsection_fields)
qed

lemma addSubsection_activeIsLast:
  "activeIsLast st \<Longrightarrow> activeIsLast (addSubsection k hid level txt st)"
proof -
  assume a: "activeIsLast st"
  have "chapters (addSubsection k hid level txt st) = [] \<longleftrightarrow> chapters st = []"
    using addSubsection_fields(3) [of k hid level "txt" st] by (metis length_0_conv)
  then show ?thesis using a by (simp add: activeIsLast_def addSubsection_fields)
qed

lemma handleHeading_idsInv: "idsInv st \<Longrightarrow> idsInv (handleHeading i level txt st)"
proof (cases "level = 2")
  case True
  assume inv: "idsInv st"
  obtain hid st1 where u:
    "uniqueId (''chapter-'' @ showNat (length (chapters st) + 1)) (normalizeChapterTitle txt)
       (showNat (length (chapters st) + 1)) st = (hid, st1)"
    by (cases "uniqueId (''chapter-'' @ showNat (length (chapters st) + 1))
          (normalizeChapterTitle txt) (showNat (length (chapters st) + 1)) st")
  from uniqueId_result [OF u] have fresh: "hid \<notin> set (usedIds st)"
    and st1: "st1 = st\<lparr>usedIds := usedIds st @ [hid]\<rparr>" by simp_all
  have hh: "handleHeading i level txt st =
      st1\<lparr>chapters := chapters st1 @ [\<lparr>ch_title = normalizeChapterTitle txt, ch_id = hid,
             ch_blocks = [], ch_subsections = []\<rparr>],
          activeChapter := Some (length (chapters st1)), subsectionStack := []\<rparr>"
    using True u by (simp add: handleHeading_def Let_def)
  show ?thesis
    using inv fresh unfolding hh st1 idsInv_def activeIsLast_def allIds_def by simp
next
  case False
  assume inv: "idsInv st"
  obtain hid st1 where u: "uniqueId ''section'' txt (showNat (i + 1)) st = (hid, st1)"
    by (cases "uniqueId ''section'' txt (showNat (i + 1)) st")
  from uniqueId_result [OF u] have fresh: "hid \<notin> set (usedIds st)"
    and st1: "st1 = st\<lparr>usedIds := usedIds st @ [hid]\<rparr>" by simp_all
  define st2 where "st2 = (case activeChapter st1 of
      Some k \<Rightarrow> if 3 \<le> level then addSubsection k hid level txt st1 else st1 | None \<Rightarrow> st1)"
  have hh: "handleHeading i level txt st = pushBlock (Heading level txt hid) st2"
    using False u by (simp add: handleHeading_def Let_def st2_def)
  have a1: "activeIsLast st1" using inv by (simp add: st1 idsInv_def activeIsLast_def)
  have ids1: "allIds st1 = allIds st" by (simp add: st1 allIds_def)
  have a2: "activeIsLast st2"
    using a1 by (auto simp: st2_def addSubsection_activeIsLast split: option.splits)
  have ids2: "allIds st2 = allIds st1"
    by (auto simp: st2_def addSubsection_allIds split: option.splits)
  have u2: "usedIds st2 = usedIds st @ [hid]"
    by (auto simp: st2_def st1 addSubsection_fields split: option.splits)
  show ?thesis
    unfolding hh idsInv_def
    using inv fresh pushBlock_activeIsLast [OF a2] pushBlock_ids [OF a2] ids1 ids2 u2
    by (simp add: pushBlock_fields idsInv_def)
qed

lemma pushBlock_idsInv:
  "headingIds [b] = [] \<Longrightarrow> idsInv st \<Longrightarrow> idsInv (pushBlock b st)"
  using pushBlock_ids [of st b] pushBlock_activeIsLast [of st b]
  by (simp add: idsInv_def pushBlock_fields)

lemma parseStep_idsInv: "idsInv st \<Longrightarrow> idsInv (snd (parseStep lines i st))"
  by (auto simp: parseStep_def Let_def handleHeading_idsInv pushBlock_idsInv
      split: option.splits prod.splits)

lemma initState_idsInv: "idsInv initState"
  by (simp add: idsInv_def initState_def activeIsLast_def allIds_def)

lemma parseMarkdown_idsInv: "idsInv (parseMarkdown md)"
  unfolding parseMarkdown_def
  by (rule parseLoop_invariant) (simp_all add: parseStep_idsInv initState_idsInv)

text \<open>
  C1.  For every document body, the anchor ids of the outline (the ids of the chapters
  and of the heading blocks in the intro and in the chapters) are pairwise distinct;
  two level-3 headings titled "Overview" get \<^verbatim>\<open>section-overview\<close> and
  \<^verbatim>\<open>section-overview-2\<close>.
\<close>

theorem anchor_ids_unique:
  "distinct (allIds (parseMarkdown md)) \<and>
   allIds (parseMarkdown ''### Overview\<newline>### Overview'')
     = [''section-overview'', ''section-overview-2'']"
proof -
  have "distinct (allIds (parseMarkdown md))"
    using parseMarkdown_idsInv [of md]
      mset_eq_imp_distinct_iff [of "allIds (parseMarkdown md)" "usedIds (parseMarkdown md)"]
    by (simp add: idsInv_def)
  moreover have "allIds (parseMarkdown ''### Overview\<newline>### Overview'')
      = [''section-overview'', ''section-overview-2'']"
    by code_simp
  ultimately show ?thesis by simp
qed

subsection \<open>The base of an anchor id\<close>

lemma uniqueIdLoop_form:
  "uniqueIdLoop used base cand n = cand \<or>
   (\<exists>m \<ge> n. uniqueIdLoop used base cand n = base @ ''-'' @ showNat m)"
proof (induction used base cand n rule: uniqueIdLoop.induct)
  case (1 used base cand n)
  show ?case
  proof (cases "cand \<in> set used")
    case True
    then have eq: "uniqueIdLoop used base cand n
        = uniqueIdLoop used base (base @ ''-'' @ showNat n) (n + 1)"
      by (subst uniqueIdLoop.simps) simp
    from "1.IH" [OF True] show ?thesis
      unfolding eq by (metis le_refl add_leD1)
  next
    case False
    then show ?thesis by (subst uniqueIdLoop.simps) simp
  qed
qed

lemma hasBase_suffix: "2 \<le> n \<Longrightarrow> hasBase (base @ ''-'' @ showNat n) base"
  by (simp add: hasBase_def startsWith_def readNat_showNat)

lemma hasBase_self: "hasBase base base"
  by (simp add: hasBase_def)

lemma hasBase_cases:
  "hasBase hid base \<Longrightarrow> hid = base \<or> (\<exists>n \<ge> 2. hid = base @ ''-'' @ showNat n)"
proof -
  assume "hasBase hid base"
  then consider "hid = base"
    | "startsWith hid (base @ ''-'')" "2 \<le> readNat (drop (length base + 1) hid)"
      "drop (length base + 1) hid = showNat (readNat (drop (length base + 1) hid))"
    by (auto simp: hasBase_def Let_def)
  then show ?thesis
  proof cases
    case 1
    then show ?thesis by simp
  next
    case 2
    from 2(1) have "take (length base + 1) hid = base @ ''-''" by (simp add: startsWith_def)
    then have "hid = (base @ ''-'') @ drop (length base + 1) hid"
      by (metis append_take_drop_id)
    with 2(2,3) show ?thesis by (metis append.assoc)
  qed
qed

lemma uniqueId_hasBase:
  "uniqueId pre txt fb st = (hid, st1) \<Longrightarrow> hasBase hid (idBase pre txt fb)"
proof -
  assume "uniqueId pre txt fb st = (hid, st1)"
  then have h: "hid = uniqueIdLoop (usedIds st) (idBase pre txt fb) (idBase pre txt fb) 2"
    by (auto simp: uniqueId_def Let_def)
  from uniqueIdLoop_form [of "usedIds st" "idBase pre txt fb" "idBase pre txt fb" 2]
  show ?thesis unfolding h [symmetric] using hasBase_self hasBase_suffix by metis
qed

lemma pushBlock_set:
  assumes "activeIsLast st"
  shows "set (allBlocks (pushBlock b st)) = insert b (set (allBlocks st))"
proof (cases "activeChapter st")
  case None
  then show ?thesis by (simp add: pushBlock_def allBlocks_def)
next
  case (Some k)
  with assms have k: "k < length (chapters st)"
    by (auto simp: activeIsLast_def split: if_splits)
  let ?c = "(chapters st ! k)\<lparr>ch_blocks := ch_blocks (chapters st ! k) @ [b]\<rparr>"
  have "mset (concat (map ch_blocks ((chapters st)[k := ?c]))) + mset (ch_blocks (chapters st ! k))
        = mset (concat (map ch_blocks (chapters st))) + mset (ch_blocks ?c)"
    using mset_concat_update [OF k, of ch_blocks ?c] .
  then have "mset (concat (map ch_blocks ((chapters st)[k := ?c])))
        = mset (concat (map ch_blocks (chapters st))) + {#b#}"
    by simp
  then have "set (concat (map ch_blocks ((chapters st)[k := ?c])))
        = insert b (set (concat (map ch_blocks (chapters st))))"
    by (metis set_mset_mset set_mset_add_mset_insert union_mset_add_mset_right add.right_neutral)
  then show ?thesis using Some by (simp add: pushBlock_def allBlocks_def)
qed

lemma pushBlock_chapter_fields:
  "map ch_id (chapters (pushBlock b st)) = map ch_id (chapters st)"
  "map ch_title (chapters (pushBlock b st)) = map ch_title (chapters st)"
  "map ch_subsections (chapters (pushBlock b st)) = map ch_subsections (chapters st)"
  "introBlocks (pushBlock b st) = introBlocks st \<or> introBlocks (pushBlock b st) = introBlocks st @ [b]"
  by (auto simp: pushBlock_def map_update_same split: option.splits)

lemma chaptersOk_cong:
  assumes "map ch_id (chapters st') = map ch_id (chapters st)"
    and "map ch_title (chapters st') = map ch_title (chapters st)"
    and "chaptersOk st"
  shows "chaptersOk st'"
proof -
  from assms(1) have len: "length (chapters st') = length (chapters st)"
    by (metis length_map)
  have "ch_id (chapters st' ! k) = ch_id (chapters st ! k)
      \<and> ch_title (chapters st' ! k) = ch_title (chapters st ! k)" if "k < length (chapters st)" for k
    using that assms(1,2) len by (metis nth_map)
  with assms(3) len show ?thesis by (simp add: chaptersOk_def)
qed

lemma pushBlock_baseInv:
  "blockOk lines b \<Longrightarrow> baseInv lines st \<Longrightarrow> baseInv lines (pushBlock b st)"
  using chaptersOk_cong [of "pushBlock b st" st] pushBlock_set [of st b]
  by (simp add: baseInv_def pushBlock_activeIsLast pushBlock_chapter_fields)

lemma addSubsection_allBlocks: "allBlocks (addSubsection k hid level txt st) = allBlocks st"
  by (simp add: allBlocks_def addSubsection_fields)

lemma addSubsection_baseInv:
  "baseInv lines st \<Longrightarrow> baseInv lines (addSubsection k hid level txt st)"
  using chaptersOk_cong [of "addSubsection k hid level txt st" st]
  by (simp add: baseInv_def addSubsection_activeIsLast addSubsection_allBlocks addSubsection_fields)

lemma handleHeading_baseInv:
  assumes i: "i < length lines"
    and m: "matchHeading (trim (lines ! i)) = Some (level, t)"
    and inv: "baseInv lines st"
  shows "baseInv lines (handleHeading i level (trim t) st)"
proof (cases "level = 2")
  case True
  let ?n = "length (chapters st)"
  let ?title = "normalizeChapterTitle (trim t)"
  obtain hid st1 where u:
    "uniqueId (''chapter-'' @ showNat (?n + 1)) ?title (showNat (?n + 1)) st = (hid, st1)"
    by (cases "uniqueId (''chapter-'' @ showNat (?n + 1)) ?title (showNat (?n + 1)) st")
  from uniqueId_result [OF u] have st1: "st1 = st\<lparr>usedIds := usedIds st @ [hid]\<rparr>" by simp
  from uniqueId_hasBase [OF u]
  have hb: "hasBase hid (idBase (''chapter-'' @ showNat (?n + 1)) ?title (showNat (?n + 1)))" .
  have hh: "handleHeading i level (trim t) st =
      st1\<lparr>chapters := chapters st1 @ [\<lparr>ch_title = ?title, ch_id = hid,
             ch_blocks = [], ch_subsections = []\<rparr>],
          activeChapter := Some (length (chapters st1)), subsectionStack := []\<rparr>"
    using True u by (simp add: handleHeading_def Let_def)
  have c: "chaptersOk (handleHeading i level (trim t) st)"
    using inv hb unfolding hh st1 baseInv_def chaptersOk_def
    by (auto simp: nth_append less_Suc_eq)
  show ?thesis
    using inv c unfolding baseInv_def
    by (simp add: hh st1 activeIsLast_def allBlocks_def)
next
  case False
  obtain hid st1 where u: "uniqueId ''section'' (trim t) (showNat (i + 1)) st = (hid, st1)"
    by (cases "uniqueId ''section'' (trim t) (showNat (i + 1)) st")
  from uniqueId_result [OF u] have st1: "st1 = st\<lparr>usedIds := usedIds st @ [hid]\<rparr>" by simp
  from uniqueId_hasBase [OF u]
  have hb: "hasBase hid (idBase ''section'' (trim t) (showNat (i + 1)))" .
  define st2 where "st2 = (case activeChapter st1 of
      Some k \<Rightarrow> if 3 \<le> level then addSubsection k hid level (trim t) st1 else st1 | None \<Rightarrow> st1)"
  have hh: "handleHeading i level (trim t) st = pushBlock (Heading level (trim t) hid) st2"
    using False u by (simp add: handleHeading_def Let_def st2_def)
  have "baseInv lines st1"
    using inv by (simp add: st1 baseInv_def activeIsLast_def chaptersOk_def allBlocks_def)
  then have b2: "baseInv lines st2"
    by (auto simp: st2_def addSubsection_baseInv split: option.splits)
  have "blockOk lines (Heading level (trim t) hid)"
    using False i m hb by (auto simp: blockOk_def)
  then show ?thesis unfolding hh using b2 by (rule pushBlock_baseInv)
qed

lemma parseStep_baseInv:
  "i < length lines \<Longrightarrow> baseInv lines st \<Longrightarrow> baseInv lines (snd (parseStep lines i st))"
  by (auto simp: parseStep_def Let_def case_prod_beta handleHeading_baseInv pushBlock_baseInv
      blockOk_def split: option.splits)

lemma parseLoop_baseInv: "baseInv lines st \<Longrightarrow> baseInv lines (parseLoop lines i st)"
  by (rule parseLoop_invariant) (simp_all add: parseStep_baseInv)

lemma parseMarkdown_baseInv:
  "baseInv (splitLines (replaceCRLF md)) (parseMarkdown md)"
  unfolding parseMarkdown_def
  by (rule parseLoop_baseInv) (simp add: baseInv_def initState_def activeIsLast_def chaptersOk_def allBlocks_def)


text \<open>
  C2 (as the code has it).  The anchor id of the \<open>k\<close>-th chapter (counting from 1)
  whose title has a non-empty slug is \<^verbatim>\<open>chapter-k-slug\<close>, or that base with a suffix
  \<^verbatim>\<open>-n\<close>; the slug is the one of the chapter title, the heading text without a leading
  "N. ".  The anchor id of every other heading whose text has a non-empty slug is
  \<^verbatim>\<open>section-slug\<close> or that base with a suffix.  The body "## First", "text" gives an
  empty intro and one chapter titled "First" with anchor \<^verbatim>\<open>chapter-1-first\<close> and the one
  paragraph block "text".
\<close>

theorem anchor_id_bases:
  "(\<forall>k < length (chapters (parseMarkdown md)).
      slugify (ch_title (chapters (parseMarkdown md) ! k)) \<noteq> [] \<longrightarrow>
      hasBase (ch_id (chapters (parseMarkdown md) ! k))
        (''chapter-'' @ showNat (k + 1) @ ''-'' @ slugify (ch_title (chapters (parseMarkdown md) ! k)))) \<and>
   (\<forall>lvl txt hid. Heading lvl txt hid \<in> set (allBlocks (parseMarkdown md)) \<longrightarrow>
      slugify txt \<noteq> [] \<longrightarrow> lvl \<noteq> 2 \<and> hasBase hid (''section-'' @ slugify txt)) \<and>
   introBlocks (parseMarkdown ''## First\<newline>text'') = [] \<and>
   chapters (parseMarkdown ''## First\<newline>text'')
     = [\<lparr>ch_title = ''First'', ch_id = ''chapter-1-first'', ch_blocks = [P ''text''],
         ch_subsections = []\<rparr>]"
proof -
  let ?st = "parseMarkdown md"
  from parseMarkdown_baseInv [of md]
  have c: "chaptersOk ?st"
    and b: "\<forall>b \<in> set (allBlocks ?st). blockOk (splitLines (replaceCRLF md)) b"
    by (simp_all add: baseInv_def)
  have 1: "\<forall>k < length (chapters ?st). slugify (ch_title (chapters ?st ! k)) \<noteq> [] \<longrightarrow>
      hasBase (ch_id (chapters ?st ! k))
        (''chapter-'' @ showNat (k + 1) @ ''-'' @ slugify (ch_title (chapters ?st ! k)))"
  proof (intro allI impI)
    fix k
    assume k: "k < length (chapters ?st)" and s: "slugify (ch_title (chapters ?st ! k)) \<noteq> []"
    from c k have "hasBase (ch_id (chapters ?st ! k))
        (idBase (''chapter-'' @ showNat (k + 1)) (ch_title (chapters ?st ! k)) (showNat (k + 1)))"
      by (simp add: chaptersOk_def)
    with s show "hasBase (ch_id (chapters ?st ! k))
        (''chapter-'' @ showNat (k + 1) @ ''-'' @ slugify (ch_title (chapters ?st ! k)))"
      by (simp add: idBase_def)
  qed
  have 2: "\<forall>lvl txt hid. Heading lvl txt hid \<in> set (allBlocks ?st) \<longrightarrow>
      slugify txt \<noteq> [] \<longrightarrow> lvl \<noteq> 2 \<and> hasBase hid (''section-'' @ slugify txt)"
  proof (intro allI impI)
    fix lvl :: nat and htxt hid :: string
    assume "Heading lvl htxt hid \<in> set (allBlocks ?st)" and s: "slugify htxt \<noteq> []"
    with b have "blockOk (splitLines (replaceCRLF md)) (Heading lvl htxt hid)" by blast
    with s show "lvl \<noteq> 2 \<and> hasBase hid (''section-'' @ slugify htxt)"
      by (auto simp: blockOk_def idBase_def)
  qed
  have 3: "introBlocks (parseMarkdown ''## First\<newline>text'') = []"
    by code_simp
  have 4: "chapters (parseMarkdown ''## First\<newline>text'')
     = [\<lparr>ch_title = ''First'', ch_id = ''chapter-1-first'', ch_blocks = [P ''text''],
         ch_subsections = []\<rparr>]"
    by code_simp
  from 1 2 3 4 show ?thesis by blast
qed

theorem anchor_id_bases_witness:
  "0 < length (chapters (parseMarkdown ''## 1. First\<newline>### Some part'')) \<and>
   slugify (ch_title (chapters (parseMarkdown ''## 1. First\<newline>### Some part'') ! 0)) = ''first'' \<and>
   hasBase (ch_id (chapters (parseMarkdown ''## 1. First\<newline>### Some part'') ! 0)) ''chapter-1-first'' \<and>
   Heading 3 ''Some part'' ''section-some-part''
     \<in> set (allBlocks (parseMarkdown ''## 1. First\<newline>### Some part'')) \<and>
   slugify ''Some part'' = ''some-part'' \<and>
   hasBase ''section-some-part'' ''section-some-part''"
proof -
  let ?st = "parseMarkdown ''## 1. First\<newline>### Some part''"
  have len: "0 < length (chapters ?st)" by code_simp
  have sl: "slugify (ch_title (chapters ?st ! 0)) = ''first''" by code_simp
  have mem: "Heading 3 ''Some part'' ''section-some-part'' \<in> set (allBlocks ?st)" by code_simp
  have sl2: "slugify ''Some part'' = ''some-part''" by code_simp
  have one: "showNat (Suc 0) = ''1''" by code_simp
  from anchor_id_bases [of "''## 1. First\<newline>### Some part''"] len sl
  have "hasBase (ch_id (chapters ?st ! 0)) (''chapter-'' @ showNat (0 + 1) @ ''-'' @ ''first'')"
    by (metis list.discI)
  then have a: "hasBase (ch_id (chapters ?st ! 0)) ''chapter-1-first''" by (simp add: one)
  from anchor_id_bases [of "''## 1. First\<newline>### Some part''"] mem sl2
  have "hasBase ''section-some-part'' (''section-'' @ ''some-part'')"
    by (metis list.discI)
  then have b: "hasBase ''section-some-part'' ''section-some-part''" by simp
  from len sl a mem sl2 b show ?thesis by blast
qed

theorem chapter_anchor_counterexample:
  "map ch_id (chapters (parseMarkdown ''## First\<newline>text'')) = [''chapter-1-first''] \<and>
   \<not> hasBase ''chapter-1-first'' ''chapter-first''"
  by code_simp

lemma matchHeading_Nil: "matchHeading [] = None"
  by (simp add: matchHeading_def)

lemma update_last: "xs \<noteq> [] \<Longrightarrow> xs[length xs - 1 := x] = butlast xs @ [x]"
  by (metis append_butlast_last_id length_butlast list_update_length)

lemma pushBlock_allBlocks:
  assumes "activeIsLast st"
  shows "allBlocks (pushBlock b st) = allBlocks st @ [b]"
proof (cases "activeChapter st")
  case None
  with assms have "chapters st = []" by (auto simp: activeIsLast_def split: if_splits)
  with None show ?thesis by (simp add: pushBlock_def allBlocks_def)
next
  case (Some k)
  with assms have ne: "chapters st \<noteq> []" and k: "k = length (chapters st) - 1"
    by (auto simp: activeIsLast_def split: if_splits)
  let ?xs = "chapters st"
  have l: "?xs ! k = last ?xs" using ne k by (simp add: last_conv_nth)
  have x: "?xs = butlast ?xs @ [last ?xs]" using ne by simp
  have "concat (map ch_blocks (?xs[k := (?xs ! k)\<lparr>ch_blocks := ch_blocks (?xs ! k) @ [b]\<rparr>]))
      = concat (map ch_blocks (butlast ?xs)) @ ch_blocks (last ?xs) @ [b]"
    unfolding k [symmetric] l using update_last [OF ne] k by simp
  moreover have "concat (map ch_blocks ?xs)
      = concat (map ch_blocks (butlast ?xs)) @ ch_blocks (last ?xs)"
    by (subst x) simp
  ultimately show ?thesis using Some by (simp add: pushBlock_def allBlocks_def)
qed

lemma handleHeading_allBlocks:
  assumes a: "activeIsLast st"
  shows "\<exists>hid. hasBase hid (idBase ''section'' htxt (showNat (i + 1))) \<and>
     allBlocks (handleHeading i level htxt st)
       = allBlocks st @ (if level = 2 then [] else [Heading level htxt hid])"
proof (cases "level = 2")
  case True
  obtain hid st1 where u:
    "uniqueId (''chapter-'' @ showNat (length (chapters st) + 1)) (normalizeChapterTitle htxt)
       (showNat (length (chapters st) + 1)) st = (hid, st1)"
    by (cases "uniqueId (''chapter-'' @ showNat (length (chapters st) + 1))
          (normalizeChapterTitle htxt) (showNat (length (chapters st) + 1)) st")
  from uniqueId_result [OF u] have st1: "st1 = st\<lparr>usedIds := usedIds st @ [hid]\<rparr>" by simp
  have "allBlocks (handleHeading i level htxt st) = allBlocks st"
    using True u by (simp add: handleHeading_def Let_def st1 allBlocks_def)
  with True show ?thesis using hasBase_self by auto
next
  case False
  obtain hid st1 where u: "uniqueId ''section'' htxt (showNat (i + 1)) st = (hid, st1)"
    by (cases "uniqueId ''section'' htxt (showNat (i + 1)) st")
  from uniqueId_result [OF u] have st1: "st1 = st\<lparr>usedIds := usedIds st @ [hid]\<rparr>" by simp
  from uniqueId_hasBase [OF u] have hb: "hasBase hid (idBase ''section'' htxt (showNat (i + 1)))" .
  define st2 where "st2 = (case activeChapter st1 of
      Some k \<Rightarrow> if 3 \<le> level then addSubsection k hid level htxt st1 else st1 | None \<Rightarrow> st1)"
  have hh: "handleHeading i level htxt st = pushBlock (Heading level htxt hid) st2"
    using False u by (simp add: handleHeading_def Let_def st2_def)
  have a1: "activeIsLast st1" using a by (simp add: st1 activeIsLast_def)
  have a2: "activeIsLast st2"
    using a1 by (auto simp: st2_def addSubsection_activeIsLast split: option.splits)
  have b1: "allBlocks st1 = allBlocks st" by (simp add: st1 allBlocks_def)
  have b2: "allBlocks st2 = allBlocks st"
    unfolding b1 [symmetric] by (simp add: st2_def addSubsection_allBlocks split: option.splits)
  from pushBlock_allBlocks [OF a2] hh b2 False hb show ?thesis by auto
qed

lemma sectionIdAt_idBase:
  "hasBase hid (idBase ''section'' txt (showNat (i + 1)))
     \<Longrightarrow> sectionIdAt (Heading lvl txt hid) (i, lvl, txt)"
  by (auto simp: sectionIdAt_def idBase_def)

lemma parseStep_headings:
  assumes i: "i < length lines" and a: "activeIsLast st"
  shows "\<exists>new. filter isHeadingBlock (allBlocks (snd (parseStep lines i st)))
            = filter isHeadingBlock (allBlocks st) @ new \<and>
          list_all2 sectionIdAt new (headingAt lines i)"
proof (cases "matchHeading (trim (lines ! i))")
  case None
  then have h: "headingAt lines i = []" by (simp add: headingAt_def)
  have "filter isHeadingBlock (allBlocks (snd (parseStep lines i st)))
      = filter isHeadingBlock (allBlocks st)"
    using None
    by (simp add: parseStep_def Let_def case_prod_beta pushBlock_allBlocks [OF a]
        isHeadingBlock_def)
  with h show ?thesis by simp
next
  case (Some p)
  obtain level t where p: "p = (level, t)" by (cases p)
  from Some p have ne: "trim (lines ! i) \<noteq> []" using matchHeading_Nil by auto
  have s: "snd (parseStep lines i st) = handleHeading i level (trim t) st"
    using Some p ne by (simp add: parseStep_def Let_def)
  from handleHeading_allBlocks [OF a, where htxt = "trim t" and i = i and level = level] obtain hid where
    hb: "hasBase hid (idBase ''section'' (trim t) (showNat (i + 1)))" and
    ab: "allBlocks (handleHeading i level (trim t) st)
       = allBlocks st @ (if level = 2 then [] else [Heading level (trim t) hid])"
    by blast
  show ?thesis
  proof (cases "level = 2")
    case True
    with Some p have "headingAt lines i = []" by (simp add: headingAt_def)
    with s ab True show ?thesis by simp
  next
    case False
    with Some p have "headingAt lines i = [(i, level, trim t)]" by (simp add: headingAt_def)
    moreover have "filter isHeadingBlock (allBlocks (snd (parseStep lines i st)))
      = filter isHeadingBlock (allBlocks st) @ [Heading level (trim t) hid]"
      using s ab False by (simp add: isHeadingBlock_def)
    ultimately show ?thesis using sectionIdAt_idBase [OF hb] by simp
  qed
qed

lemma parseStep_activeIsLast:
  "i < length lines \<Longrightarrow> activeIsLast st \<Longrightarrow> activeIsLast (snd (parseStep lines i st))"
proof -
  assume "activeIsLast st"
  have hh: "activeIsLast (handleHeading j level t st)" for j level t
  proof (cases "level = 2")
    case True
    obtain hid st1 where u:
      "uniqueId (''chapter-'' @ showNat (length (chapters st) + 1)) (normalizeChapterTitle t)
         (showNat (length (chapters st) + 1)) st = (hid, st1)"
      by (cases "uniqueId (''chapter-'' @ showNat (length (chapters st) + 1))
          (normalizeChapterTitle t) (showNat (length (chapters st) + 1)) st")
    from uniqueId_result [OF u] have st1: "st1 = st\<lparr>usedIds := usedIds st @ [hid]\<rparr>" by simp
    show ?thesis using True u by (simp add: handleHeading_def Let_def st1 activeIsLast_def)
  next
    case False
    obtain hid st1 where u: "uniqueId ''section'' t (showNat (j + 1)) st = (hid, st1)"
      by (cases "uniqueId ''section'' t (showNat (j + 1)) st")
    from uniqueId_result [OF u] have st1: "st1 = st\<lparr>usedIds := usedIds st @ [hid]\<rparr>" by simp
    have a1: "activeIsLast st1" using \<open>activeIsLast st\<close> by (simp add: st1 activeIsLast_def)
    show ?thesis
      using False u a1
      by (auto simp: handleHeading_def Let_def pushBlock_activeIsLast addSubsection_activeIsLast
          split: option.splits)
  qed
  show ?thesis
    using \<open>activeIsLast st\<close> hh
    by (auto simp: parseStep_def Let_def case_prod_beta pushBlock_activeIsLast split: option.splits)
qed

lemma parseLoop_headings:
  "activeIsLast st \<Longrightarrow>
     \<exists>new. filter isHeadingBlock (allBlocks (parseLoop lines i st))
            = filter isHeadingBlock (allBlocks st) @ new \<and>
          list_all2 sectionIdAt new (lineHeadings lines i)"
proof (induction lines i st rule: parseLoop.induct)
  case (1 lines i st)
  show ?case
  proof (cases "i < length lines")
    case True
    obtain j st' where js: "parseStep lines i st = (j, st')" by (cases "parseStep lines i st")
    have j: "j = nextLine lines i" using parseStep_index [of lines i st] js by simp
    have a': "activeIsLast st'"
      using parseStep_activeIsLast [OF True "1.prems"] js by simp
    from parseStep_headings [OF True "1.prems"] js obtain new0 where
      n0: "filter isHeadingBlock (allBlocks st') = filter isHeadingBlock (allBlocks st) @ new0"
      and r0: "list_all2 sectionIdAt new0 (headingAt lines i)"
      by auto
    from "1.IH" [OF True js [symmetric] a'] obtain new1 where
      n1: "filter isHeadingBlock (allBlocks (parseLoop lines j st'))
            = filter isHeadingBlock (allBlocks st') @ new1"
      and r1: "list_all2 sectionIdAt new1 (lineHeadings lines j)"
      by blast
    have pl: "parseLoop lines i st = parseLoop lines j st'"
      using True js by (subst parseLoop.simps) simp
    have lh: "lineHeadings lines i = headingAt lines i @ lineHeadings lines j"
      using True j by (subst lineHeadings.simps) simp
    have "list_all2 sectionIdAt (new0 @ new1) (lineHeadings lines i)"
      unfolding lh using r0 r1 by (rule list_all2_appendI)
    moreover have "filter isHeadingBlock (allBlocks (parseLoop lines i st))
            = filter isHeadingBlock (allBlocks st) @ (new0 @ new1)"
      unfolding pl n1 n0 by simp
    ultimately show ?thesis by blast
  next
    case False
    then have "parseLoop lines i st = st" by (subst parseLoop.simps) simp
    moreover from False have "lineHeadings lines i = []" by (subst lineHeadings.simps) simp
    ultimately show ?thesis by simp
  qed
qed

lemma parseMarkdown_headings:
  "list_all2 sectionIdAt (filter isHeadingBlock (allBlocks (parseMarkdown md)))
     (lineHeadings (splitLines (replaceCRLF md)) 0)"
proof -
  have "activeIsLast initState" by (simp add: activeIsLast_def initState_def)
  from parseLoop_headings [OF this, of "splitLines (replaceCRLF md)" 0]
  show ?thesis by (simp add: parseMarkdown_def allBlocks_def initState_def)
qed

lemma lineHeadings_lines:
  "(j, lvl, txt) \<in> set (lineHeadings lines i) \<Longrightarrow>
     i \<le> j \<and> j < length lines \<and> lvl \<noteq> 2 \<and>
     (\<exists>t. matchHeading (trim (lines ! j)) = Some (lvl, t) \<and> trim t = txt)"
proof (induction lines i rule: lineHeadings.induct)
  case (1 lines i)
  show ?case
  proof (cases "i < length lines")
    case True
    from "1.prems" True have "(j, lvl, txt) \<in> set (headingAt lines i) \<or>
        (j, lvl, txt) \<in> set (lineHeadings lines (nextLine lines i))"
      by (subst (asm) lineHeadings.simps) simp
    then show ?thesis
    proof
      assume m: "(j, lvl, txt) \<in> set (headingAt lines i)"
      then obtain p where p: "matchHeading (trim (lines ! i)) = Some p"
        by (cases "matchHeading (trim (lines ! i))") (auto simp: headingAt_def)
      obtain level t where lt: "p = (level, t)" by (cases p)
      from m p lt have "j = i \<and> lvl = level \<and> txt = trim t \<and> level \<noteq> 2"
        by (auto simp: headingAt_def split: if_splits)
      with True p lt show ?thesis by auto
    next
      assume "(j, lvl, txt) \<in> set (lineHeadings lines (nextLine lines i))"
      from "1.IH" [OF True this] nextLine_advances [OF True] show ?thesis by auto
    qed
  next
    case False
    with "1.prems" show ?thesis by (subst (asm) lineHeadings.simps) simp
  qed
qed

lemma lineHeadings_increasing: "sorted_wrt (<) (map fst (lineHeadings lines i))"
proof (induction lines i rule: lineHeadings.induct)
  case (1 lines i)
  show ?case
  proof (cases "i < length lines")
    case True
    have later: "i < fst h" if "h \<in> set (lineHeadings lines (nextLine lines i))" for h
    proof -
      obtain j lvl t where h: "h = (j, lvl, t)" by (cases h)
      from lineHeadings_lines [of j lvl t lines "nextLine lines i"] that h
        nextLine_advances [OF True]
      show ?thesis by auto
    qed
    have "sorted_wrt (<) (map fst (headingAt lines i @ lineHeadings lines (nextLine lines i)))"
      using "1.IH" [OF True] later
      by (auto simp: headingAt_def sorted_wrt_append split: option.splits)
    with True show ?thesis by (subst lineHeadings.simps) simp
  next
    case False
    then show ?thesis by (subst lineHeadings.simps) simp
  qed
qed

text \<open>
  C9 (as the code has it).  A chapter whose title has an empty slug falls back to its
  ordinal: the id of the \<open>k\<close>-th chapter has the base \<^verbatim>\<open>chapter-k-k\<close>.  The heading blocks
  of the outline, in document order, are one by one the headings of a level other than
  2 that the loop meets, on lines of strictly increasing index; each has the level and
  the text of its own line, and the id of a heading whose text has an empty slug has the
  base \<^verbatim>\<open>section-\<close> followed by the 1-based position of that line.
\<close>

theorem anchor_id_fallback:
  "(\<forall>k < length (chapters (parseMarkdown md)).
      slugify (ch_title (chapters (parseMarkdown md) ! k)) = [] \<longrightarrow>
      hasBase (ch_id (chapters (parseMarkdown md) ! k))
        (''chapter-'' @ showNat (k + 1) @ ''-'' @ showNat (k + 1))) \<and>
   list_all2 sectionIdAt (filter isHeadingBlock (allBlocks (parseMarkdown md)))
     (lineHeadings (splitLines (replaceCRLF md)) 0) \<and>
   sorted_wrt (<) (map fst (lineHeadings (splitLines (replaceCRLF md)) 0)) \<and>
   (\<forall>i lvl htxt. (i, lvl, htxt) \<in> set (lineHeadings (splitLines (replaceCRLF md)) 0) \<longrightarrow>
      i < length (splitLines (replaceCRLF md)) \<and> lvl \<noteq> 2 \<and>
      (\<exists>t. matchHeading (trim (splitLines (replaceCRLF md) ! i)) = Some (lvl, t) \<and> trim t = htxt))"
proof -
  let ?st = "parseMarkdown md"
  from parseMarkdown_baseInv [of md]
  have c: "chaptersOk ?st" by (simp add: baseInv_def)
  have 1: "\<forall>k < length (chapters ?st). slugify (ch_title (chapters ?st ! k)) = [] \<longrightarrow>
      hasBase (ch_id (chapters ?st ! k)) (''chapter-'' @ showNat (k + 1) @ ''-'' @ showNat (k + 1))"
  proof (intro allI impI)
    fix k
    assume k: "k < length (chapters ?st)" and s: "slugify (ch_title (chapters ?st ! k)) = []"
    from c k have "hasBase (ch_id (chapters ?st ! k))
        (idBase (''chapter-'' @ showNat (k + 1)) (ch_title (chapters ?st ! k)) (showNat (k + 1)))"
      by (simp add: chaptersOk_def)
    with s show "hasBase (ch_id (chapters ?st ! k))
        (''chapter-'' @ showNat (k + 1) @ ''-'' @ showNat (k + 1))"
      by (simp add: idBase_def)
  qed
  have 2: "\<forall>i lvl htxt. (i, lvl, htxt) \<in> set (lineHeadings (splitLines (replaceCRLF md)) 0) \<longrightarrow>
      i < length (splitLines (replaceCRLF md)) \<and> lvl \<noteq> 2 \<and>
      (\<exists>t. matchHeading (trim (splitLines (replaceCRLF md) ! i)) = Some (lvl, t) \<and> trim t = htxt)"
    using lineHeadings_lines [of _ _ _ "splitLines (replaceCRLF md)" 0] by blast
  from 1 2 parseMarkdown_headings [of md]
    lineHeadings_increasing [of "splitLines (replaceCRLF md)" 0]
  show ?thesis by blast
qed

theorem anchor_id_fallback_witness:
  "0 < length (chapters (parseMarkdown ''intro\<newline>\<newline>## !!!\<newline>### ???'')) \<and>
   slugify (ch_title (chapters (parseMarkdown ''intro\<newline>\<newline>## !!!\<newline>### ???'') ! 0)) = [] \<and>
   hasBase (ch_id (chapters (parseMarkdown ''intro\<newline>\<newline>## !!!\<newline>### ???'') ! 0)) ''chapter-1-1'' \<and>
   filter isHeadingBlock (allBlocks (parseMarkdown ''### ???\<newline>text\<newline>### ???''))
     = [Heading 3 ''???'' ''section-1'', Heading 3 ''???'' ''section-3''] \<and>
   lineHeadings (splitLines (replaceCRLF ''### ???\<newline>text\<newline>### ???'')) 0
     = [(0, 3, ''???''), (2, 3, ''???'')] \<and>
   slugify ''???'' = [] \<and>
   sectionIdAt (Heading 3 ''???'' ''section-1'') (0, 3, ''???'') \<and>
   sectionIdAt (Heading 3 ''???'' ''section-3'') (2, 3, ''???'') \<and>
   hasBase ''section-3'' (''section-'' @ showNat (2 + 1)) \<and>
   \<not> sectionIdAt (Heading 3 ''???'' ''section-1-2'') (2, 3, ''???'') \<and>
   (2, 3, ''???'') \<in> set (lineHeadings (splitLines (replaceCRLF ''### ???\<newline>text\<newline>### ???'')) 0) \<and>
   matchHeading (trim (splitLines (replaceCRLF ''### ???\<newline>text\<newline>### ???'') ! 2)) = Some (3, ''???'')"
proof -
  let ?md = "''intro\<newline>\<newline>## !!!\<newline>### ???''"
  let ?st = "parseMarkdown ?md"
  let ?md2 = "''### ???\<newline>text\<newline>### ???''"
  have len: "0 < length (chapters ?st)" by code_simp
  have sl: "slugify (ch_title (chapters ?st ! 0)) = []" by code_simp
  have one: "showNat (Suc 0) = ''1''" by code_simp
  from anchor_id_fallback [of ?md] len sl
  have "hasBase (ch_id (chapters ?st ! 0)) (''chapter-'' @ showNat (0 + 1) @ ''-'' @ showNat (0 + 1))"
    by blast
  then have a: "hasBase (ch_id (chapters ?st ! 0)) ''chapter-1-1''" by (simp add: one)
  have blocks: "filter isHeadingBlock (allBlocks (parseMarkdown ?md2))
     = [Heading 3 ''???'' ''section-1'', Heading 3 ''???'' ''section-3'']"
    by code_simp
  have hs: "lineHeadings (splitLines (replaceCRLF ?md2)) 0 = [(0, 3, ''???''), (2, 3, ''???'')]"
    by code_simp
  have sl2: "slugify ''???'' = []" by code_simp
  from anchor_id_fallback [of ?md2]
  have "list_all2 sectionIdAt (filter isHeadingBlock (allBlocks (parseMarkdown ?md2)))
     (lineHeadings (splitLines (replaceCRLF ?md2)) 0)"
    by blast
  then have s1: "sectionIdAt (Heading 3 ''???'' ''section-1'') (0, 3, ''???'')"
    and s2: "sectionIdAt (Heading 3 ''???'' ''section-3'') (2, 3, ''???'')"
    unfolding blocks hs by simp_all
  from s2 sl2 have hb: "hasBase ''section-3'' (''section-'' @ showNat (2 + 1))"
    by (simp add: sectionIdAt_def)
  have no: "\<not> sectionIdAt (Heading 3 ''???'' ''section-1-2'') (2, 3, ''???'')"
    by code_simp
  have mem: "(2, 3, ''???'') \<in> set (lineHeadings (splitLines (replaceCRLF ?md2)) 0)"
    unfolding hs by simp
  from anchor_id_fallback [of ?md2] mem
  have "\<exists>t. matchHeading (trim (splitLines (replaceCRLF ?md2) ! 2)) = Some (3, t) \<and> trim t = ''???''"
    by blast
  moreover have "matchHeading (trim (splitLines (replaceCRLF ?md2) ! 2)) = Some (3, ''???'')"
    by code_simp
  ultimately have mh: "matchHeading (trim (splitLines (replaceCRLF ?md2) ! 2)) = Some (3, ''???'')"
    by simp
  from len sl a blocks hs sl2 s1 s2 hb no mem mh show ?thesis by blast
qed

theorem chapter_fallback_counterexample:
  "map ch_id (chapters (parseMarkdown ''intro\<newline>\<newline>## !!!'')) = [''chapter-1-1''] \<and>
   matchHeading (trim (splitLines (replaceCRLF ''intro\<newline>\<newline>## !!!'') ! 2)) = Some (2, ''!!!'') \<and>
   \<not> hasBase ''chapter-1-1'' (''chapter-1-'' @ showNat 3) \<and>
   \<not> hasBase ''chapter-1-1'' (''chapter-'' @ showNat 3)"
  by code_simp

section \<open>Properties of the block renderer\<close>

lemma showNat_digits:
  "showNat 1 = ''1''" "showNat 2 = ''2''" "showNat 3 = ''3''" "showNat 4 = ''4''"
  "showNat (Suc 0) = ''1''"
  by code_simp+

text \<open>
  C10.  A heading block of level 4 or more renders as an \<^verbatim>\<open>h4\<close> element, so a level-5 or
  level-6 heading block is an \<^verbatim>\<open>h4\<close>; levels 1 to 3 render as themselves.  The block
  and the subsection object made for a level-5 heading keep the level 5.
\<close>

theorem heading_tag_clamped:
  \<open>renderBlock (Heading (4 + n) txt hid)
     = ''<h4 id="'' @ escapeAttr hid @ ''">'' @ renderInline txt @ ''</h4>'' \<and>
   renderBlock (Heading 5 txt hid)
     = ''<h4 id="'' @ escapeAttr hid @ ''">'' @ renderInline txt @ ''</h4>'' \<and>
   renderBlock (Heading 6 txt hid)
     = ''<h4 id="'' @ escapeAttr hid @ ''">'' @ renderInline txt @ ''</h4>'' \<and>
   renderBlock (Heading 3 txt hid)
     = ''<h3 id="'' @ escapeAttr hid @ ''">'' @ renderInline txt @ ''</h3>'' \<and>
   renderBlock (Heading 1 txt hid)
     = ''<h1 id="'' @ escapeAttr hid @ ''">'' @ renderInline txt @ ''</h1>'' \<and>
   allBlocks (parseMarkdown ''## C\<newline>##### Deep'') = [Heading 5 ''Deep'' ''section-deep''] \<and>
   store (parseMarkdown ''## C\<newline>##### Deep'')
     = [\<lparr>sub_id = ''section-deep'', sub_level = 5, sub_title = ''Deep'', sub_children = []\<rparr>] \<and>
   renderBlock (Heading 5 ''Deep'' ''section-deep'') = ''<h4 id="section-deep">Deep</h4>''\<close>
proof -
  have m: "min (max (4 + n) 1) 4 = (4::nat)" by simp
  have a: \<open>renderBlock (Heading (4 + n) txt hid)
     = ''<h4 id="'' @ escapeAttr hid @ ''">'' @ renderInline txt @ ''</h4>''\<close>
    by (simp only: renderBlock.simps Let_def m showNat_digits) simp
  have b: \<open>renderBlock (Heading 5 txt hid)
     = ''<h4 id="'' @ escapeAttr hid @ ''">'' @ renderInline txt @ ''</h4>''\<close>
    by (simp add: showNat_digits)
  have c: \<open>renderBlock (Heading 6 txt hid)
     = ''<h4 id="'' @ escapeAttr hid @ ''">'' @ renderInline txt @ ''</h4>''\<close>
    by (simp add: showNat_digits)
  have d: \<open>renderBlock (Heading 3 txt hid)
     = ''<h3 id="'' @ escapeAttr hid @ ''">'' @ renderInline txt @ ''</h3>''\<close>
    by (simp add: showNat_digits)
  have e: \<open>renderBlock (Heading 1 txt hid)
     = ''<h1 id="'' @ escapeAttr hid @ ''">'' @ renderInline txt @ ''</h1>''\<close>
    by (simp add: showNat_digits)
  have f: "allBlocks (parseMarkdown ''## C\<newline>##### Deep'') = [Heading 5 ''Deep'' ''section-deep'']"
    by code_simp
  have g: "store (parseMarkdown ''## C\<newline>##### Deep'')
     = [\<lparr>sub_id = ''section-deep'', sub_level = 5, sub_title = ''Deep'', sub_children = []\<rparr>]"
    by code_simp
  have h: \<open>renderBlock (Heading 5 ''Deep'' ''section-deep'') = ''<h4 id="section-deep">Deep</h4>''\<close>
    by code_simp
  from a b c d e f g h show ?thesis by blast
qed

section \<open>Properties of the page assembler\<close>

subsection \<open>Documents without chapters\<close>





lemma chapterLines_none:
  "list_all (\<lambda>l. case matchHeading (trim l) of Some (lvl, t) \<Rightarrow> lvl \<noteq> 2 | None \<Rightarrow> True) lines
     \<Longrightarrow> chapterLines lines i = []"
proof (induction lines i rule: chapterLines.induct)
  case (1 lines i)
  show ?case
  proof (cases "i < length lines")
    case True
    with "1.prems" have "chapterAt lines i = []"
      by (auto simp: chapterAt_def list_all_length split: option.splits)
    with "1.IH" [OF True "1.prems"] True show ?thesis by (subst chapterLines.simps) simp
  next
    case False
    then show ?thesis by (subst chapterLines.simps) simp
  qed
qed



subsection \<open>Subsection levels and the depth of the table of contents\<close>




















lemma node_eta: "TocNode (node_id n) (node_level n) (node_title n) (node_children n) = n"
  by (cases n) simp















end
